theory Spec2Isabelle
  imports Main
begin

section \<open>Documents and collections\<close>

text \<open>
  The backend keeps its data in MongoDB collections and talks to them through Mongoose
  models (\<^verbatim>\<open>models/Ticket.ts\<close>, \<^verbatim>\<open>models/Event.ts\<close>, \<^verbatim>\<open>models/User.ts\<close>).
  An ObjectId is modelled by its string form, a \<^verbatim>\<open>Date\<close> by its millisecond count.
  Prices are numbers that the handlers only copy; both schemas validate them with
  \<^verbatim>\<open>min: 0\<close>, so the model takes them from the natural numbers.
\<close>

type_synonym oid = string

datatype ticket_status = Active | Used | Cancelled | Expired

datatype event_status = Draft | Published | EventCancelled | Completed

datatype ticket_type = Free | Paid

text \<open>\<^verbatim>\<open>ITicket\<close>; \<open>oid\<close> is the document's \<^verbatim>\<open>_id\<close>.\<close>

record ticket_doc =
  oid :: oid
  ticketId :: string
  event :: oid
  user :: oid
  qrCode :: string
  status :: ticket_status
  usedAt :: "int option"
  usedBy :: "oid option"
  price :: "nat option"
  createdAt :: int
  updatedAt :: int

text \<open>The fields of \<^verbatim>\<open>IEvent\<close> that the ticket handlers read.\<close>

record event_doc =
  date :: int
  ev_status :: event_status
  isApproved :: bool
  organization :: oid
  createdBy :: oid
  capacity :: int
  ticketType :: ticket_type
  ticketPrice :: "nat option"

text \<open>\<^verbatim>\<open>req.user\<close>, as the authentication middleware leaves it on the request.\<close>

record principal =
  uid :: oid
  user_org :: "oid option"

text \<open>
  The database: the events by \<^verbatim>\<open>_id\<close>, the tickets in insertion order, and the ids of
  the organization and user documents that exist.
\<close>

record store =
  events :: "oid \<rightharpoonup> event_doc"
  tickets :: "ticket_doc list"
  organizations :: "oid set"
  users :: "oid set"

text \<open>The responses of the handlers that are not a success.\<close>

datatype error =
    ValidationFailed
  | EventNotFound
  | EventNotClaimable
  | EventPassed
  | AlreadyClaimed
  | SoldOut
  | Malformed
  | NotFound
  | WrongScope
  | NotActive
  | UserNotFound
  | ServerError

section \<open>JSON text\<close>

text \<open>
  \<^verbatim>\<open>JSON.stringify\<close> and \<^verbatim>\<open>JSON.parse\<close> belong to the JavaScript runtime. They are
  modelled after the JSON grammar. A text is a list of 8-bit characters, which covers the
  identifiers and dates of the payloads; a parsed string is a list of code units, since an
  escape can denote a larger one. The parser accepts one value surrounded by white space,
  and a number is kept as its lexeme.
\<close>

definition bs :: char where "bs = CHR 0x5C"

definition dq :: char where "dq = CHR 0x22"

definition hex_digit :: "nat \<Rightarrow> char" where
  "hex_digit d = (if d < 10 then char_of (48 + d) else char_of (87 + d))"

definition quote_char :: "char \<Rightarrow> string" where
  "quote_char c =
     (if c = dq then [bs, dq]
      else if c = bs then [bs, bs]
      else if c = CHR 0x08 then [bs, CHR ''b'']
      else if c = CHR 0x0C then [bs, CHR ''f'']
      else if c = CHR 0x0A then [bs, CHR ''n'']
      else if c = CHR 0x0D then [bs, CHR ''r'']
      else if c = CHR 0x09 then [bs, CHR ''t'']
      else if (of_char c :: nat) < 32
        then [bs, CHR ''u'', CHR ''0'', CHR ''0'',
              hex_digit ((of_char c :: nat) div 16), hex_digit ((of_char c :: nat) mod 16)]
      else [c])"

definition quote :: "string \<Rightarrow> string" where
  "quote s = dq # concat (map quote_char s) @ [dq]"

text \<open>
  \<^verbatim>\<open>JSON.stringify({ ticketId, eventId, userId, timestamp })\<close> with four string values:
  the keys in the order of the object literal, no white space.
\<close>

definition stringify_qr :: "string \<Rightarrow> string \<Rightarrow> string \<Rightarrow> string \<Rightarrow> string" where
  "stringify_qr tid eid usr ts =
     ''{'' @ quote ''ticketId'' @ '':'' @ quote tid @ '','' @
             quote ''eventId'' @ '':'' @ quote eid @ '','' @
             quote ''userId'' @ '':'' @ quote usr @ '','' @
             quote ''timestamp'' @ '':'' @ quote ts @ ''}''"

datatype json =
    JNull
  | JBool bool
  | JNumber string
  | JString "nat list"
  | JArray "json list"
  | JObject "(nat list \<times> json) list"

definition is_ws :: "char \<Rightarrow> bool" where
  "is_ws c \<longleftrightarrow> c = CHR 0x20 \<or> c = CHR 0x09 \<or> c = CHR 0x0A \<or> c = CHR 0x0D"

definition skip_ws :: "string \<Rightarrow> string" where
  "skip_ws s = dropWhile is_ws s"

definition is_digit :: "char \<Rightarrow> bool" where
  "is_digit c \<longleftrightarrow> (48::nat) \<le> of_char c \<and> (of_char c :: nat) \<le> 57"

definition hex_val :: "char \<Rightarrow> nat option" where
  "hex_val c =
     (let n = (of_char c :: nat) in
      if 48 \<le> n \<and> n \<le> 57 then Some (n - 48)
      else if 97 \<le> n \<and> n \<le> 102 then Some (n - 87)
      else if 65 \<le> n \<and> n \<le> 70 then Some (n - 55)
      else None)"

definition unescape :: "char \<Rightarrow> nat option" where
  "unescape e =
     (if e = dq then Some 0x22
      else if e = bs then Some 0x5C
      else if e = CHR ''/'' then Some 0x2F
      else if e = CHR ''b'' then Some 0x08
      else if e = CHR ''f'' then Some 0x0C
      else if e = CHR ''n'' then Some 0x0A
      else if e = CHR ''r'' then Some 0x0D
      else if e = CHR ''t'' then Some 0x09
      else None)"

definition unicode_escape :: "char \<Rightarrow> char \<Rightarrow> char \<Rightarrow> char \<Rightarrow> nat option" where
  "unicode_escape h1 h2 h3 h4 =
     (case (hex_val h1, hex_val h2, hex_val h3, hex_val h4) of
        (Some a, Some b, Some c, Some d) \<Rightarrow> Some (((a * 16 + b) * 16 + c) * 16 + d)
      | _ \<Rightarrow> None)"

definition cons_unit :: "nat \<Rightarrow> (nat list \<times> string) option \<Rightarrow> (nat list \<times> string) option" where
  "cons_unit u r = (case r of None \<Rightarrow> None | Some (us, rest) \<Rightarrow> Some (u # us, rest))"

text \<open>The characters of a string after its opening quote, up to the closing one.\<close>

fun parse_string_body :: "string \<Rightarrow> (nat list \<times> string) option" where
  "parse_string_body [] = None"
| "parse_string_body (c # cs) =
     (if c = dq then Some ([], cs)
      else if c = bs then
        (case cs of
           [] \<Rightarrow> None
         | e # es \<Rightarrow>
            if e = CHR ''u'' then
              (case es of
                 h1 # h2 # h3 # h4 # r \<Rightarrow>
                   (case unicode_escape h1 h2 h3 h4 of
                      None \<Rightarrow> None
                    | Some u \<Rightarrow> cons_unit u (parse_string_body r))
               | _ \<Rightarrow> None)
            else
              (case unescape e of
                 None \<Rightarrow> None
               | Some u \<Rightarrow> cons_unit u (parse_string_body es)))
      else if (of_char c :: nat) < 32 then None
      else cons_unit (of_char c) (parse_string_body cs))"

text \<open>A number: optional sign, integer part, optional fraction, optional exponent.\<close>

definition parse_digits :: "string \<Rightarrow> (string \<times> string) option" where
  "parse_digits s =
     (if takeWhile is_digit s = [] then None
      else Some (takeWhile is_digit s, dropWhile is_digit s))"

definition parse_sign :: "string \<Rightarrow> string \<times> string" where
  "parse_sign s =
     (case s of
        [] \<Rightarrow> ([], s)
      | c # cs \<Rightarrow> if c = CHR ''-'' then ([c], cs) else ([], s))"

definition parse_int_part :: "string \<Rightarrow> (string \<times> string) option" where
  "parse_int_part s =
     (case s of
        [] \<Rightarrow> None
      | c # cs \<Rightarrow>
          if c = CHR ''0'' then Some ([c], cs)
          else if is_digit c then Some (c # takeWhile is_digit cs, dropWhile is_digit cs)
          else None)"

definition parse_frac :: "string \<Rightarrow> (string \<times> string) option" where
  "parse_frac s =
     (case s of
        [] \<Rightarrow> Some ([], s)
      | c # cs \<Rightarrow>
          if c = CHR ''.'' then
            (case parse_digits cs of None \<Rightarrow> None | Some (ds, r) \<Rightarrow> Some (c # ds, r))
          else Some ([], s))"

definition parse_exp_sign :: "string \<Rightarrow> string \<times> string" where
  "parse_exp_sign s =
     (case s of
        [] \<Rightarrow> ([], s)
      | c # cs \<Rightarrow> if c = CHR ''+'' \<or> c = CHR ''-'' then ([c], cs) else ([], s))"

definition parse_exp :: "string \<Rightarrow> (string \<times> string) option" where
  "parse_exp s =
     (case s of
        [] \<Rightarrow> Some ([], s)
      | c # cs \<Rightarrow>
          if c = CHR ''e'' \<or> c = CHR ''E'' then
            (case parse_digits (snd (parse_exp_sign cs)) of
               None \<Rightarrow> None
             | Some (ds, r) \<Rightarrow> Some (c # fst (parse_exp_sign cs) @ ds, r))
          else Some ([], s))"

definition parse_number :: "string \<Rightarrow> (string \<times> string) option" where
  "parse_number s =
     (case parse_int_part (snd (parse_sign s)) of
        None \<Rightarrow> None
      | Some (ip, s1) \<Rightarrow>
          (case parse_frac s1 of
             None \<Rightarrow> None
           | Some (fp, s2) \<Rightarrow>
               (case parse_exp s2 of
                  None \<Rightarrow> None
                | Some (ep, s3) \<Rightarrow> Some (fst (parse_sign s) @ ip @ fp @ ep, s3))))"

text \<open>
  A value, the elements of an array after its bracket and the members of an object after
  its brace. The first argument bounds the number of nested calls. \<open>JSON_parse\<close> starts
  with more than twice the length of the text; every second call consumes a character, so
  the parser never stops for lack of fuel (\<open>JSON_parse_fuel\<close> below).
\<close>

fun parse_value :: "nat \<Rightarrow> string \<Rightarrow> (json \<times> string) option"
  and parse_elements :: "nat \<Rightarrow> string \<Rightarrow> (json list \<times> string) option"
  and parse_members :: "nat \<Rightarrow> string \<Rightarrow> ((nat list \<times> json) list \<times> string) option"
where
  "parse_value 0 s = None"
| "parse_value (Suc n) s =
     (case skip_ws s of
        [] \<Rightarrow> None
      | c # cs \<Rightarrow>
          if c = CHR ''{'' then
            (case skip_ws cs of
               [] \<Rightarrow> None
             | d # ds \<Rightarrow>
                 if d = CHR ''}'' then Some (JObject [], ds)
                 else (case parse_members n (d # ds) of
                         None \<Rightarrow> None
                       | Some (ms, r) \<Rightarrow> Some (JObject ms, r)))
          else if c = CHR ''['' then
            (case skip_ws cs of
               [] \<Rightarrow> None
             | d # ds \<Rightarrow>
                 if d = CHR '']'' then Some (JArray [], ds)
                 else (case parse_elements n (d # ds) of
                         None \<Rightarrow> None
                       | Some (vs, r) \<Rightarrow> Some (JArray vs, r)))
          else if c = dq then
            (case parse_string_body cs of
               None \<Rightarrow> None
             | Some (us, r) \<Rightarrow> Some (JString us, r))
          else if take 4 (c # cs) = ''true'' then Some (JBool True, drop 4 (c # cs))
          else if take 5 (c # cs) = ''false'' then Some (JBool False, drop 5 (c # cs))
          else if take 4 (c # cs) = ''null'' then Some (JNull, drop 4 (c # cs))
          else (case parse_number (c # cs) of
                  None \<Rightarrow> None
                | Some (lexeme, r) \<Rightarrow> Some (JNumber lexeme, r)))"
| "parse_elements 0 s = None"
| "parse_elements (Suc n) s =
     (case parse_value n s of
        None \<Rightarrow> None
      | Some (v, r) \<Rightarrow>
          (case skip_ws r of
             [] \<Rightarrow> None
           | c # cs \<Rightarrow>
               if c = CHR '']'' then Some ([v], cs)
               else if c = CHR '','' then
                 (case parse_elements n cs of
                    None \<Rightarrow> None
                  | Some (vs, r') \<Rightarrow> Some (v # vs, r'))
               else None))"
| "parse_members 0 s = None"
| "parse_members (Suc n) s =
     (case skip_ws s of
        [] \<Rightarrow> None
      | c # cs \<Rightarrow>
          if c \<noteq> dq then None
          else
            (case parse_string_body cs of
               None \<Rightarrow> None
             | Some (k, r) \<Rightarrow>
                 (case skip_ws r of
                    [] \<Rightarrow> None
                  | d # ds \<Rightarrow>
                      if d \<noteq> CHR '':'' then None
                      else
                        (case parse_value n ds of
                           None \<Rightarrow> None
                         | Some (v, r') \<Rightarrow>
                             (case skip_ws r' of
                                [] \<Rightarrow> None
                              | e # es \<Rightarrow>
                                  if e = CHR ''}'' then Some ([(k, v)], es)
                                  else if e = CHR '','' then
                                    (case parse_members n es of
                                       None \<Rightarrow> None
                                     | Some (ms, r'') \<Rightarrow> Some ((k, v) # ms, r''))
                                  else None)))))"

text \<open>\<^verbatim>\<open>JSON.parse\<close>: one value, then nothing but white space; \<open>None\<close> is the SyntaxError.\<close>

definition JSON_parse :: "string \<Rightarrow> json option" where
  "JSON_parse s =
     (case parse_value (2 * length s + 2) s of
        None \<Rightarrow> None
      | Some (v, r) \<Rightarrow> if skip_ws r = [] then Some v else None)"

section \<open>Dates and identifiers\<close>

text \<open>
  \<^verbatim>\<open>Date.prototype.toISOString\<close>, for a time given in milliseconds since the epoch:
  the day count is turned into a date of the proleptic Gregorian calendar; a year outside
  0 to 9999 is written with a sign and six digits.
\<close>

definition digit_char :: "int \<Rightarrow> char" where
  "digit_char d = ''0123456789'' ! nat d"

fun pad :: "nat \<Rightarrow> int \<Rightarrow> string" where
  "pad 0 n = []"
| "pad (Suc k) n = pad k (n div 10) @ [digit_char (n mod 10)]"

definition civil_from_days :: "int \<Rightarrow> int \<times> int \<times> int" where
  "civil_from_days z =
     (let era = (z + 719468) div 146097;
          doe = (z + 719468) mod 146097;
          yoe = (doe - doe div 1460 + doe div 36524 - doe div 146096) div 365;
          doy = doe - (365 * yoe + yoe div 4 - yoe div 100);
          mp = (5 * doy + 2) div 153;
          d = doy - (153 * mp + 2) div 5 + 1;
          m = (if mp < 10 then mp + 3 else mp - 9);
          y = yoe + era * 400 + (if m \<le> 2 then 1 else 0)
      in (y, m, d))"

definition year_text :: "int \<Rightarrow> string" where
  "year_text y =
     (if 0 \<le> y \<and> y \<le> 9999 then pad 4 y
      else (if y < 0 then ''-'' else ''+'') @ pad 6 \<bar>y\<bar>)"

definition toISOString :: "int \<Rightarrow> string" where
  "toISOString t =
     (case civil_from_days (t div 86400000) of
        (y, m, d) \<Rightarrow>
          (let ms = t mod 86400000
           in year_text y @ ''-'' @ pad 2 m @ ''-'' @ pad 2 d @ ''T'' @
              pad 2 (ms div 3600000) @ '':'' @ pad 2 (ms div 60000 mod 60) @ '':'' @
              pad 2 (ms div 1000 mod 60) @ ''.'' @ pad 3 (ms mod 1000) @ ''Z''))"

text \<open>
  \<^verbatim>\<open>body('eventId').isMongoId()\<close> is the validator library's test: the string has
  twenty-four characters and is hexadecimal, which that library reads as
  \<^verbatim>\<open>/^(0x|0h)?[0-9A-F]+$/i\<close>. So it also passes a prefix \<^verbatim>\<open>0x\<close> or \<^verbatim>\<open>0h\<close> before
  twenty-two digits.
\<close>

definition is_hex :: "char \<Rightarrow> bool" where
  "is_hex c \<longleftrightarrow> hex_val c \<noteq> None"

definition hex_run :: "string \<Rightarrow> bool" where
  "hex_run s \<longleftrightarrow> s \<noteq> [] \<and> list_all is_hex s"

definition isHexadecimal :: "string \<Rightarrow> bool" where
  "isHexadecimal s \<longleftrightarrow>
     hex_run s \<or>
     (case s of
        c # d # r \<Rightarrow>
          c = CHR ''0'' \<and> (d = CHR ''x'' \<or> d = CHR ''X'' \<or> d = CHR ''h'' \<or> d = CHR ''H'') \<and>
          hex_run r
      | _ \<Rightarrow> False)"

definition isMongoId :: "string \<Rightarrow> bool" where
  "isMongoId s \<longleftrightarrow> isHexadecimal s \<and> length s = 24"

text \<open>
  Where a path or a filter of a model expects an ObjectId, Mongoose casts the string it is
  given: twenty-four hexadecimal digits are read as twelve bytes, and every other string is
  a \<^verbatim>\<open>CastError\<close>, which the handlers' \<^verbatim>\<open>catch\<close> turns into a 500. (Older versions
  of the driver also read a string of twelve characters as twelve bytes; the model does
  not.) An ObjectId is kept as its string form, which has the digits in lower case; this
  is what \<^verbatim>\<open>toString()\<close> and \<^verbatim>\<open>JSON.stringify\<close> give, and what two ids are compared by.
\<close>

definition lower_hex :: "char \<Rightarrow> char" where
  "lower_hex c = (case hex_val c of None \<Rightarrow> c | Some d \<Rightarrow> hex_digit d)"

definition castObjectId :: "string \<Rightarrow> oid option" where
  "castObjectId s =
     (if length s = 24 \<and> list_all is_hex s then Some (map lower_hex s) else None)"

section \<open>Store operations\<close>

text \<open>\<^verbatim>\<open>Model.findOne(filter)\<close>: the first document that matches.\<close>

definition findOne :: "(ticket_doc \<Rightarrow> bool) \<Rightarrow> store \<Rightarrow> ticket_doc option" where
  "findOne P s = find P (tickets s)"

text \<open>\<^verbatim>\<open>Ticket.countDocuments(filter)\<close>.\<close>

definition countDocuments :: "(ticket_doc \<Rightarrow> bool) \<Rightarrow> store \<Rightarrow> int" where
  "countDocuments P s = int (length (filter P (tickets s)))"

text \<open>
  \<^verbatim>\<open>TicketSchema\<close>'s validators, run by \<^verbatim>\<open>save()\<close>: \<^verbatim>\<open>ticketId\<close> and \<^verbatim>\<open>qrCode\<close> are
  required strings, which an empty string is not. (\<^verbatim>\<open>price\<close> has \<^verbatim>\<open>min: 0\<close>, which
  holds of every natural number.)
\<close>

definition schema_valid :: "ticket_doc \<Rightarrow> bool" where
  "schema_valid t \<longleftrightarrow>
     ticketId t \<noteq> [] \<and> qrCode t \<noteq> []"

text \<open>
  The unique indexes of the collection: \<^verbatim>\<open>_id\<close>, and \<^verbatim>\<open>unique: true\<close> on
  \<^verbatim>\<open>ticketId\<close> and \<^verbatim>\<open>qrCode\<close>. The index on \<^verbatim>\<open>{ event: 1, user: 1 }\<close> is not unique.
\<close>

definition duplicate_key :: "ticket_doc \<Rightarrow> store \<Rightarrow> bool" where
  "duplicate_key t s \<longleftrightarrow>
     list_ex (\<lambda>d. oid d = oid t \<or> ticketId d = ticketId t \<or> qrCode d = qrCode t) (tickets s)"

text \<open>
  \<^verbatim>\<open>save()\<close> of a new document; \<open>None\<close> is the ValidationError or the duplicate key
  error that the handler's \<^verbatim>\<open>catch\<close> turns into a 500.
\<close>

definition save_new :: "ticket_doc \<Rightarrow> store \<Rightarrow> store option" where
  "save_new t s =
     (if \<not> schema_valid t \<or> duplicate_key t s then None
      else Some (s\<lparr>tickets := tickets s @ [t]\<rparr>))"

text \<open>
  \<^verbatim>\<open>save()\<close> of a loaded document: an update of the document with its \<^verbatim>\<open>_id\<close>, which
  sets the modified paths.
\<close>

fun updateOne :: "oid \<Rightarrow> (ticket_doc \<Rightarrow> ticket_doc) \<Rightarrow> ticket_doc list \<Rightarrow> ticket_doc list" where
  "updateOne i f [] = []"
| "updateOne i f (t # ts) = (if oid t = i then f t # ts else t # updateOne i f ts)"

text \<open>The three assignments of the redemption handlers, and the timestamp of the save.\<close>

definition mark_used :: "principal \<Rightarrow> int \<Rightarrow> ticket_doc \<Rightarrow> ticket_doc" where
  "mark_used p now t =
     t\<lparr>status := Used, usedAt := Some now, usedBy := Some (uid p), updatedAt := now\<rparr>"

section \<open>Ticket handlers\<close>

text \<open>
  Each handler is a function from the store and the request to the response and the
  store it leaves. The middleware in front of a handler (authentication, role, approval)
  is not part of it. \<open>now\<close> is the handler's reading of the clock. The redemption
  handlers read it in one stretch of code with no database operation in between, which the
  model takes as one reading; the claim handler reads it three times with database
  operations in between, and has three readings. The claim handler and the scan handler are written in two parts, the reads up to
  the last check and the save, which the source separates by an \<^verbatim>\<open>await\<close>. The handler
  itself is the two parts one after the other on the same store, that is, a request that
  runs from its first read to its write without another request in between; the parts also
  tell what happens when another request gets in between.
\<close>

text \<open>
  \<^verbatim>\<open>POST /api/tickets/claim\<close>. \<open>eventId\<close> is the text of the request body, which the
  queries and the new document cast to an ObjectId and the payload takes as it is;
  \<open>uuid\<close> is the result of \<^verbatim>\<open>uuidv4()\<close> and \<open>newId\<close> the \<^verbatim>\<open>_id\<close> that Mongoose gives
  the document. \<open>now\<close> is the clock at the date check, \<open>built\<close> the clock when the
  payload is built and \<open>saved\<close> the clock at the save. \<open>new_ticket\<close> is \<^verbatim>\<open>new Ticket({ ticketId, event, user, qrCode, price })\<close>
  for the event id \<open>e\<close> that \<open>eventId\<close> casts to: the schema's default gives the status,
  the save its two timestamps. The image that \<^verbatim>\<open>QRCode.toDataURL\<close> draws goes into the
  response only, and the body's optional \<^verbatim>\<open>paymentMethod\<close> is not used.
\<close>

definition new_ticket ::
  "principal \<Rightarrow> string \<Rightarrow> oid \<Rightarrow> event_doc \<Rightarrow> int \<Rightarrow> int \<Rightarrow> string \<Rightarrow> oid \<Rightarrow> ticket_doc"
where
  "new_ticket p eventId e ev built saved uuid newId =
     \<lparr> oid = newId, ticketId = uuid, event = e, user = uid p,
       qrCode = stringify_qr uuid eventId (uid p) (toISOString built), status = Active,
       usedAt = None, usedBy = None,
       price = (if ticketType ev = Paid then ticketPrice ev else Some 0),
       createdAt = saved, updatedAt = saved \<rparr>"

text \<open>The validation and the reads: the event, the duplicate guard, the capacity check.\<close>

definition claim_reads ::
  "store \<Rightarrow> principal \<Rightarrow> string \<Rightarrow> int \<Rightarrow> error + oid \<times> event_doc"
where
  "claim_reads s p eventId now =
     (if \<not> isMongoId eventId then Inl ValidationFailed
      else case castObjectId eventId of
        None \<Rightarrow> Inl ServerError
      | Some e \<Rightarrow>
          (case events s e of
             None \<Rightarrow> Inl EventNotFound
           | Some ev \<Rightarrow>
               if ev_status ev \<noteq> Published \<or> \<not> isApproved ev then Inl EventNotClaimable
               else if date ev < now then Inl EventPassed
               else if findOne (\<lambda>t. event t = e \<and> user t = uid p \<and>
                                      (status t = Active \<or> status t = Used)) s \<noteq> None
                 then Inl AlreadyClaimed
               else if capacity ev \<le> countDocuments (\<lambda>t. event t = e \<and> status t = Active) s
                 then Inl SoldOut
               else Inr (e, ev)))"

text \<open>The new document and its save.\<close>

definition claim_write ::
  "store \<Rightarrow> principal \<Rightarrow> string \<Rightarrow> oid \<Rightarrow> event_doc \<Rightarrow> int \<Rightarrow> int \<Rightarrow> string \<Rightarrow> oid \<Rightarrow>
     (error + ticket_doc) \<times> store"
where
  "claim_write s p eventId e ev built saved uuid newId =
     (case save_new (new_ticket p eventId e ev built saved uuid newId) s of
        None \<Rightarrow> (Inl ServerError, s)
      | Some s' \<Rightarrow> (Inr (new_ticket p eventId e ev built saved uuid newId), s'))"

definition claim ::
  "store \<Rightarrow> principal \<Rightarrow> string \<Rightarrow> int \<Rightarrow> int \<Rightarrow> int \<Rightarrow> string \<Rightarrow> oid \<Rightarrow>
     (error + ticket_doc) \<times> store"
where
  "claim s p eventId now built saved uuid newId =
     (case claim_reads s p eventId now of
        Inl err \<Rightarrow> (Inl err, s)
      | Inr (e, ev) \<Rightarrow> claim_write s p eventId e ev built saved uuid newId)"

text \<open>
  \<^verbatim>\<open>POST /api/qr/validate\<close>. Reading \<^verbatim>\<open>ticket.event.organization._id\<close> throws when the
  populated event or its organization is \<^verbatim>\<open>null\<close>, and so does
  \<^verbatim>\<open>req.user.organization.toString()\<close> for a user without organization.
\<close>

definition qr_validate ::
  "store \<Rightarrow> principal \<Rightarrow> string \<Rightarrow> int \<Rightarrow> (error + ticket_doc) \<times> store"
where
  "qr_validate s p qrData now =
     (case JSON_parse qrData of
        None \<Rightarrow> (Inl Malformed, s)
      | Some qrInfo \<Rightarrow>
          (case findOne (\<lambda>t. qrCode t = qrData) s of
             None \<Rightarrow> (Inl NotFound, s)
           | Some ticket \<Rightarrow>
               (case events s (event ticket) of
                  None \<Rightarrow> (Inl ServerError, s)
                | Some ev \<Rightarrow>
                    if organization ev \<notin> organizations s then (Inl ServerError, s)
                    else (case user_org p of
                            None \<Rightarrow> (Inl ServerError, s)
                          | Some org \<Rightarrow>
                              if organization ev \<noteq> org then (Inl WrongScope, s)
                              else if status ticket \<noteq> Active then (Inl NotActive, s)
                              else if date ev < now then (Inl EventPassed, s)
                              else (Inr ticket, s)))))"

text \<open>
  \<^verbatim>\<open>POST /api/qr/scan\<close>. The reads end with the date check and give the ticket as it
  was found. The save of that document is an update of the stored document with its
  \<^verbatim>\<open>_id\<close>, whatever the status of the stored document is by then; when there is no such
  document any more, \<^verbatim>\<open>save()\<close> throws.
\<close>

definition qr_scan_reads :: "store \<Rightarrow> principal \<Rightarrow> string \<Rightarrow> int \<Rightarrow> error + ticket_doc" where
  "qr_scan_reads s p qrData now =
     (case JSON_parse qrData of
        None \<Rightarrow> Inl Malformed
      | Some qrInfo \<Rightarrow>
          (case findOne (\<lambda>t. qrCode t = qrData) s of
             None \<Rightarrow> Inl NotFound
           | Some ticket \<Rightarrow>
               (case events s (event ticket) of
                  None \<Rightarrow> Inl ServerError
                | Some ev \<Rightarrow>
                    if organization ev \<notin> organizations s then Inl ServerError
                    else (case user_org p of
                            None \<Rightarrow> Inl ServerError
                          | Some org \<Rightarrow>
                              if organization ev \<noteq> org then Inl WrongScope
                              else if status ticket \<noteq> Active then Inl NotActive
                              else if date ev < now then Inl EventPassed
                              else Inr ticket))))"

definition qr_scan_write ::
  "store \<Rightarrow> principal \<Rightarrow> ticket_doc \<Rightarrow> int \<Rightarrow> (error + ticket_doc) \<times> store"
where
  "qr_scan_write s p ticket now =
     (if list_ex (\<lambda>d. oid d = oid ticket) (tickets s)
      then (Inr (mark_used p now ticket),
            s\<lparr>tickets := updateOne (oid ticket) (mark_used p now) (tickets s)\<rparr>)
      else (Inl ServerError, s))"

definition qr_scan ::
  "store \<Rightarrow> principal \<Rightarrow> string \<Rightarrow> int \<Rightarrow> (error + ticket_doc) \<times> store"
where
  "qr_scan s p qrData now =
     (case qr_scan_reads s p qrData now of
        Inl err \<Rightarrow> (Inl err, s)
      | Inr ticket \<Rightarrow> qr_scan_write s p ticket now)"

text \<open>\<^verbatim>\<open>POST /api/tickets/validate\<close>: the same sequence as \<^verbatim>\<open>/api/qr/validate\<close>.\<close>

definition tickets_validate ::
  "store \<Rightarrow> principal \<Rightarrow> string \<Rightarrow> int \<Rightarrow> (error + ticket_doc) \<times> store"
where
  "tickets_validate s p qrData now =
     (case JSON_parse qrData of
        None \<Rightarrow> (Inl Malformed, s)
      | Some qrInfo \<Rightarrow>
          (case findOne (\<lambda>t. qrCode t = qrData) s of
             None \<Rightarrow> (Inl NotFound, s)
           | Some ticket \<Rightarrow>
               (case events s (event ticket) of
                  None \<Rightarrow> (Inl ServerError, s)
                | Some ev \<Rightarrow>
                    if organization ev \<notin> organizations s then (Inl ServerError, s)
                    else (case user_org p of
                            None \<Rightarrow> (Inl ServerError, s)
                          | Some org \<Rightarrow>
                              if organization ev \<noteq> org then (Inl WrongScope, s)
                              else if status ticket \<noteq> Active then (Inl NotActive, s)
                              else if date ev < now then (Inl EventPassed, s)
                              else (Inr ticket, s)))))"

text \<open>
  \<^verbatim>\<open>POST /api/tickets/:id/use\<close>. \<^verbatim>\<open>findById\<close> casts the id of the path. The event is
  populated without its organization document, so only a missing event makes the
  comparison throw; there is no date check.
\<close>

definition tickets_use ::
  "store \<Rightarrow> principal \<Rightarrow> string \<Rightarrow> int \<Rightarrow> (error + unit) \<times> store"
where
  "tickets_use s p ident now =
     (case castObjectId ident of
        None \<Rightarrow> (Inl ServerError, s)
      | Some i \<Rightarrow>
          (case findOne (\<lambda>t. oid t = i) s of
             None \<Rightarrow> (Inl NotFound, s)
           | Some ticket \<Rightarrow>
               (case events s (event ticket) of
                  None \<Rightarrow> (Inl ServerError, s)
                | Some ev \<Rightarrow>
                    (case user_org p of
                       None \<Rightarrow> (Inl ServerError, s)
                     | Some org \<Rightarrow>
                         if organization ev \<noteq> org then (Inl WrongScope, s)
                         else if status ticket \<noteq> Active then (Inl NotActive, s)
                         else (Inr (),
                               s\<lparr>tickets :=
                                   updateOne (oid ticket) (mark_used p now) (tickets s)\<rparr>)))))"

text \<open>
  \<^verbatim>\<open>DELETE /api/admin/users/:id\<close> and \<^verbatim>\<open>DELETE /api/admin/events/:id\<close>, the two
  handlers that delete tickets. The id of the path is cast by \<^verbatim>\<open>findById\<close> and by the
  filters of \<^verbatim>\<open>deleteMany\<close>.
\<close>

definition admin_delete_user :: "store \<Rightarrow> string \<Rightarrow> (error + unit) \<times> store" where
  "admin_delete_user s ident =
     (case castObjectId ident of
        None \<Rightarrow> (Inl ServerError, s)
      | Some u \<Rightarrow>
          if u \<notin> users s then (Inl UserNotFound, s)
          else (Inr (),
                s\<lparr>tickets := filter (\<lambda>t. user t \<noteq> u) (tickets s),
                  events := (\<lambda>k. case events s k of
                                    None \<Rightarrow> None
                                  | Some ev \<Rightarrow> if createdBy ev = u then None else Some ev),
                  users := users s - {u}\<rparr>))"

definition admin_delete_event :: "store \<Rightarrow> string \<Rightarrow> (error + unit) \<times> store" where
  "admin_delete_event s ident =
     (case castObjectId ident of
        None \<Rightarrow> (Inl ServerError, s)
      | Some e \<Rightarrow>
          (case events s e of
             None \<Rightarrow> (Inl EventNotFound, s)
           | Some ev \<Rightarrow>
               (Inr (),
                s\<lparr>tickets := filter (\<lambda>t. event t \<noteq> e) (tickets s),
                  events := (events s)(e := None)\<rparr>)))"

text \<open>
  \<^verbatim>\<open>GET /api/events/:id\<close>: the event with \<^verbatim>\<open>ticketsIssued\<close> and
  \<^verbatim>\<open>remainingCapacity\<close>. The count is taken for the \<^verbatim>\<open>_id\<close> of the event that was found.
\<close>

record event_view =
  view_event :: event_doc
  ticketsIssued :: int
  remainingCapacity :: int

definition get_event :: "store \<Rightarrow> string \<Rightarrow> error + event_view" where
  "get_event s ident =
     (case castObjectId ident of
        None \<Rightarrow> Inl ServerError
      | Some e \<Rightarrow>
          (case events s e of
             None \<Rightarrow> Inl EventNotFound
           | Some ev \<Rightarrow>
               (let ticketCount = countDocuments (\<lambda>t. event t = e \<and> status t = Active) s
                in Inr \<lparr> view_event = ev, ticketsIssued = ticketCount,
                         remainingCapacity = capacity ev - ticketCount \<rparr>)))"

text \<open>
  \<^verbatim>\<open>GET /api/users/organizer/events\<close>: what the handler computes for one of the
  organizer's events.
\<close>

record organizer_event_view =
  org_event :: event_doc
  org_ticketsIssued :: int
  org_ticketsUsed :: int
  org_remainingCapacity :: int

definition organizer_event :: "store \<Rightarrow> oid \<Rightarrow> event_doc \<Rightarrow> organizer_event_view" where
  "organizer_event s ident ev =
     (let ticketCount = countDocuments (\<lambda>t. event t = ident \<and> status t = Active) s;
          usedTickets = countDocuments (\<lambda>t. event t = ident \<and> status t = Used) s
      in \<lparr> org_event = ev, org_ticketsIssued = ticketCount, org_ticketsUsed = usedTickets,
           org_remainingCapacity = capacity ev - ticketCount \<rparr>)"

section \<open>Requests and runs\<close>

text \<open>
  The requests that read or write tickets. \<open>OtherWrite\<close> stands for every other handler
  of the backend: those write events, organizations and users, never a ticket.
\<close>

datatype request =
    Claim principal string int int int string oid
  | QrValidate principal string int
  | QrScan principal string int
  | TicketsValidate principal string int
  | TicketsUse principal string int
  | AdminDeleteUser string
  | AdminDeleteEvent string
  | OtherWrite "oid \<rightharpoonup> event_doc" "oid set" "oid set"

fun step :: "store \<Rightarrow> request \<Rightarrow> store" where
  "step s (Claim p eventId now built saved uuid newId) =
     snd (claim s p eventId now built saved uuid newId)"
| "step s (QrValidate p qrData now) = snd (qr_validate s p qrData now)"
| "step s (QrScan p qrData now) = snd (qr_scan s p qrData now)"
| "step s (TicketsValidate p qrData now) = snd (tickets_validate s p qrData now)"
| "step s (TicketsUse p ident now) = snd (tickets_use s p ident now)"
| "step s (AdminDeleteUser ident) = snd (admin_delete_user s ident)"
| "step s (AdminDeleteEvent ident) = snd (admin_delete_event s ident)"
| "step s (OtherWrite evs orgs usrs) = s\<lparr>events := evs, organizations := orgs, users := usrs\<rparr>"

definition run :: "store \<Rightarrow> request list \<Rightarrow> store" where
  "run s rs = foldl step s rs"

text \<open>The empty database.\<close>

definition empty_store :: store where
  "empty_store = \<lparr> events = Map.empty, tickets = [], organizations = {}, users = {} \<rparr>"

section \<open>Predicates of the specification\<close>

text \<open>A ticket occupies a capacity slot while it is active or used.\<close>

definition occupies :: "ticket_doc \<Rightarrow> bool" where
  "occupies t \<longleftrightarrow> status t = Active \<or> status t = Used"

definition occupied :: "store \<Rightarrow> oid \<Rightarrow> int" where
  "occupied s e = int (length (filter (\<lambda>t. event t = e \<and> occupies t) (tickets s)))"

text \<open>
  At most one occupying ticket for each event and holder: the pairs of event and holder of
  the occupying tickets are pairwise different.
\<close>

definition one_per_holder :: "store \<Rightarrow> bool" where
  "one_per_holder s \<longleftrightarrow>
     distinct (map (\<lambda>t. (event t, user t)) (filter occupies (tickets s)))"

text \<open>The \<^verbatim>\<open>_id\<close> index: no two documents share an \<^verbatim>\<open>_id\<close>.\<close>

definition unique_ids :: "store \<Rightarrow> bool" where
  "unique_ids s \<longleftrightarrow> distinct (map oid (tickets s))"

text \<open>
  The event with id \<open>e\<close> is claimable at the time of the request: it exists, is
  published and approved, and its date has not passed.
\<close>

definition claimable :: "store \<Rightarrow> oid \<Rightarrow> event_doc \<Rightarrow> int \<Rightarrow> bool" where
  "claimable s e ev now \<longleftrightarrow>
     events s e = Some ev \<and> ev_status ev = Published \<and> isApproved ev \<and> now \<le> date ev"

text \<open>The holder has an occupying ticket for the event.\<close>

definition holds_ticket :: "store \<Rightarrow> oid \<Rightarrow> oid \<Rightarrow> bool" where
  "holds_ticket s e h \<longleftrightarrow> list_ex (\<lambda>t. event t = e \<and> user t = h \<and> occupies t) (tickets s)"

text \<open>
  The credential resolves: it parses, the lookup by equality finds ticket \<open>t\<close>, and the
  ticket's event \<open>ev\<close> and the organization that owns it exist.
\<close>

definition resolves :: "store \<Rightarrow> string \<Rightarrow> ticket_doc \<Rightarrow> event_doc \<Rightarrow> bool" where
  "resolves s q t ev \<longleftrightarrow>
     JSON_parse q \<noteq> None \<and> findOne (\<lambda>d. qrCode d = q) s = Some t \<and>
     events s (event t) = Some ev \<and> organization ev \<in> organizations s"

text \<open>The code units of a text, and the object that the payload of a ticket denotes.\<close>

definition units :: "string \<Rightarrow> nat list" where
  "units s = map of_char s"

definition qr_object :: "string \<Rightarrow> string \<Rightarrow> string \<Rightarrow> string \<Rightarrow> json" where
  "qr_object tid eid usr ts =
     JObject [(units ''ticketId'', JString (units tid)), (units ''eventId'', JString (units eid)),
              (units ''userId'', JString (units usr)), (units ''timestamp'', JString (units ts))]"

section \<open>A small database\<close>

text \<open>
  One published and approved event of capacity one, owned by organization \<open>org1\<close>; two
  students, an organizer of the owning organization and an organizer of another one.
\<close>

definition E1 :: oid where
  "E1 = ''64b0c0ffee00000000000001''"

definition T1 :: oid where
  "T1 = ''64b0c0ffee000000000000a1''"

definition T2 :: oid where
  "T2 = ''64b0c0ffee000000000000a2''"

definition ev1 :: event_doc where
  "ev1 = \<lparr> date = 1000, ev_status = Published, isApproved = True, organization = ''org1'',
           createdBy = ''staff1'', capacity = 1, ticketType = Free, ticketPrice = None \<rparr>"

definition alice :: principal where
  "alice = \<lparr> uid = ''alice'', user_org = None \<rparr>"

definition bob :: principal where
  "bob = \<lparr> uid = ''bob'', user_org = None \<rparr>"

definition staff1 :: principal where
  "staff1 = \<lparr> uid = ''staff1'', user_org = Some ''org1'' \<rparr>"

definition staff2 :: principal where
  "staff2 = \<lparr> uid = ''staff2'', user_org = Some ''org2'' \<rparr>"

definition store0 :: store where
  "store0 = \<lparr> events = [E1 \<mapsto> ev1], tickets = [], organizations = {''org1'', ''org2''},
              users = {''alice'', ''bob'', ''staff1'', ''staff2''} \<rparr>"

text \<open>
  Alice claims at time 10, her payload is built at time 11 and her ticket saved at time 12;
  her credential; organizer \<open>staff1\<close> scans it at time 20.
\<close>

definition alice_claims :: request where
  "alice_claims = Claim alice E1 10 11 12 ''uuid-1'' T1"

definition alice_qr :: string where
  "alice_qr = stringify_qr ''uuid-1'' E1 ''alice'' ''1970-01-01T00:00:00.011Z''"

definition alice_ticket :: ticket_doc where
  "alice_ticket = new_ticket alice E1 E1 ev1 11 12 ''uuid-1'' T1"

text \<open>
  The id of the event with its letters in upper case, and the ticket of the same request
  of Alice when it writes the id this way.
\<close>

definition E1_upper :: string where
  "E1_upper = ''64B0C0FFEE00000000000001''"

definition alice_ticket_upper :: ticket_doc where
  "alice_ticket_upper = new_ticket alice E1_upper E1 ev1 11 12 ''uuid-1'' T1"

definition store1 :: store where
  "store1 = run store0 [alice_claims]"

definition store2 :: store where
  "store2 = run store0 [alice_claims, QrScan staff1 alice_qr 20]"

text \<open>Alice's ticket has been cancelled.\<close>

definition store3 :: store where
  "store3 = store0\<lparr>tickets := [alice_ticket\<lparr>status := Cancelled\<rparr>]\<rparr>"

section \<open>The payload parses back\<close>

lemma hex_val_hex_digit: "d < 16 \<Longrightarrow> hex_val (hex_digit d) = Some d"
  by (auto simp: hex_val_def hex_digit_def Let_def)

lemma unicode_escape_low:
  "n < 32 \<Longrightarrow> unicode_escape (CHR ''0'') (CHR ''0'') (hex_digit (n div 16)) (hex_digit (n mod 16)) = Some n"
proof -
  assume n: "n < 32"
  have z: "hex_val (CHR ''0'') = Some 0" by (simp add: hex_val_def)
  have a: "hex_val (hex_digit (n div 16)) = Some (n div 16)" using n by (intro hex_val_hex_digit) auto
  have b: "hex_val (hex_digit (n mod 16)) = Some (n mod 16)" by (intro hex_val_hex_digit) auto
  show ?thesis by (simp add: unicode_escape_def z a b)
qed

lemma parse_quote_char:
  "parse_string_body (quote_char c @ r) = cons_unit (of_char c) (parse_string_body r)"
proof -
  consider (dq) "c = dq" | (bs) "c = bs" | (b) "c = CHR 0x08" | (f) "c = CHR 0x0C" | (n) "c = CHR 0x0A"
    | (r) "c = CHR 0x0D" | (t) "c = CHR 0x09"
    | (low) "c \<noteq> dq" "c \<noteq> bs" "c \<noteq> CHR 0x08" "c \<noteq> CHR 0x0C" "c \<noteq> CHR 0x0A" "c \<noteq> CHR 0x0D" "c \<noteq> CHR 0x09" "(of_char c :: nat) < 32"
    | (plain) "c \<noteq> dq" "c \<noteq> bs" "\<not> (of_char c :: nat) < 32"
    by auto
  then show ?thesis
  proof cases
    case low
    then show ?thesis
      by (simp add: quote_char_def unicode_escape_low bs_def dq_def)
  next
    case plain
    then show ?thesis
      by (auto simp add: quote_char_def)
  qed (simp_all add: quote_char_def unescape_def bs_def dq_def)
qed

lemma parse_string_body_quoted:
  "parse_string_body (concat (map quote_char s) @ dq # r) = Some (units s, r)"
  by (induction s) (simp_all add: parse_quote_char cons_unit_def units_def)



lemma skip_ws_simps:
  "skip_ws (dq # cs) = dq # cs"
  "skip_ws (CHR '':'' # cs) = CHR '':'' # cs"
  "skip_ws (CHR '','' # cs) = CHR '','' # cs"
  "skip_ws (CHR ''}'' # cs) = CHR ''}'' # cs"
  "skip_ws (CHR ''{'' # cs) = CHR ''{'' # cs"
  "skip_ws [] = []"
  by (simp_all add: skip_ws_def is_ws_def dq_def)

lemma dq_neq: "dq \<noteq> CHR ''}''" "dq \<noteq> CHR ''{''" "dq \<noteq> CHR ''[''" "dq \<noteq> CHR '':''" "dq \<noteq> CHR '',''"
  by (simp_all add: dq_def)

lemma parse_quoted_value:
  "parse_value (Suc n) (quote s @ r) = Some (JString (units s), r)"
proof -
  have "parse_value (Suc n) (dq # concat (map quote_char s) @ dq # r) = Some (JString (units s), r)"
    by (simp add: skip_ws_simps dq_neq parse_string_body_quoted
             del: parse_string_body.simps)
  then show ?thesis by (simp add: quote_def)
qed


lemma parse_member_last:
  "parse_members (Suc (Suc n)) (quote k @ CHR '':'' # quote v @ CHR ''}'' # r) =
     Some ([(units k, JString (units v))], r)"
proof -
  have "parse_members (Suc (Suc n))
          (dq # concat (map quote_char k) @ dq # CHR '':'' # quote v @ CHR ''}'' # r) =
        Some ([(units k, JString (units v))], r)"
    by (simp add: skip_ws_simps dq_neq parse_string_body_quoted parse_quoted_value
             del: parse_string_body.simps parse_value.simps)
  then show ?thesis by (simp add: quote_def [of k])
qed

lemma parse_member_more:
  "parse_members (Suc (Suc n)) (quote k @ CHR '':'' # quote v @ CHR '','' # r) =
     (case parse_members (Suc n) r of
        None \<Rightarrow> None
      | Some (ms, r') \<Rightarrow> Some ((units k, JString (units v)) # ms, r'))"
proof -
  have "parse_members (Suc (Suc n))
          (dq # concat (map quote_char k) @ dq # CHR '':'' # quote v @ CHR '','' # r) =
        (case parse_members (Suc n) r of
           None \<Rightarrow> None
         | Some (ms, r') \<Rightarrow> Some ((units k, JString (units v)) # ms, r'))"
    apply (subst parse_members.simps)
    apply (simp add: skip_ws_simps dq_neq parse_string_body_quoted parse_quoted_value
             del: parse_string_body.simps parse_value.simps parse_members.simps)
    done
  then show ?thesis by (simp add: quote_def [of k] del: parse_members.simps)
qed


lemma stringify_qr_shape:
  "stringify_qr tid eid usr ts =
     CHR ''{'' # quote ''ticketId'' @ CHR '':'' # quote tid @ CHR '','' #
                 quote ''eventId'' @ CHR '':'' # quote eid @ CHR '','' #
                 quote ''userId'' @ CHR '':'' # quote usr @ CHR '','' #
                 quote ''timestamp'' @ CHR '':'' # quote ts @ CHR ''}'' # []"
  by (simp add: stringify_qr_def)

lemma parse_members_qr:
  "parse_members (Suc (Suc (Suc (Suc (Suc n)))))
     (quote ''ticketId'' @ CHR '':'' # quote tid @ CHR '','' #
      quote ''eventId'' @ CHR '':'' # quote eid @ CHR '','' #
      quote ''userId'' @ CHR '':'' # quote usr @ CHR '','' #
      quote ''timestamp'' @ CHR '':'' # quote ts @ CHR ''}'' # r) =
   Some ([(units ''ticketId'', JString (units tid)), (units ''eventId'', JString (units eid)),
          (units ''userId'', JString (units usr)), (units ''timestamp'', JString (units ts))], r)"
  by (simp only: parse_member_more parse_member_last option.case prod.case)

lemma parse_value_object:
  "parse_value (Suc n) (CHR ''{'' # quote k @ r) =
     (case parse_members n (quote k @ r) of
        None \<Rightarrow> None
      | Some (ms, r') \<Rightarrow> Some (JObject ms, r'))"
proof -
  have "parse_value (Suc n) (CHR ''{'' # dq # concat (map quote_char k) @ dq # r) =
     (case parse_members n (dq # concat (map quote_char k) @ dq # r) of
        None \<Rightarrow> None
      | Some (ms, r') \<Rightarrow> Some (JObject ms, r'))"
    apply (subst parse_value.simps)
    apply (simp add: skip_ws_simps dq_neq del: parse_value.simps parse_members.simps)
    done
  then show ?thesis by (simp add: quote_def del: parse_value.simps parse_members.simps)
qed

lemma parse_value_stringify_qr:
  "parse_value (Suc (Suc (Suc (Suc (Suc (Suc n)))))) (stringify_qr tid eid usr ts) =
     Some (qr_object tid eid usr ts, [])"
  by (simp only: stringify_qr_shape parse_value_object parse_members_qr option.case prod.case
        qr_object_def)

lemma length_stringify_qr: "2 \<le> length (stringify_qr tid eid usr ts)"
  by (simp add: stringify_qr_def)

lemma JSON_parse_stringify_qr:
  "JSON_parse (stringify_qr tid eid usr ts) = Some (qr_object tid eid usr ts)"
proof -
  define m where "m = 2 * length (stringify_qr tid eid usr ts) - 4"
  have "2 * length (stringify_qr tid eid usr ts) + 2 = Suc (Suc (Suc (Suc (Suc (Suc m)))))"
    using length_stringify_qr [of tid eid usr ts] unfolding m_def by linarith
  then have "parse_value (2 * length (stringify_qr tid eid usr ts) + 2) (stringify_qr tid eid usr ts)
               = Some (qr_object tid eid usr ts, [])"
    by (simp only: parse_value_stringify_qr)
  then show ?thesis
    by (simp only: JSON_parse_def option.case prod.case skip_ws_simps simp_thms if_True)
qed



section \<open>The fuel of the parser\<close>

lemma skip_ws_length: "length (skip_ws s) \<le> length s"
  by (simp add: skip_ws_def length_dropWhile_le)

lemma skip_ws_Cons_length: "skip_ws s = c # cs \<Longrightarrow> length cs < length s"
  using skip_ws_length [of s] by simp

lemma cons_unit_Some:
  "cons_unit u x = Some (us, r) \<longleftrightarrow> (\<exists>us'. x = Some (us', r) \<and> us = u # us')"
  by (auto simp: cons_unit_def split: option.splits)

lemma parse_string_body_length:
  "parse_string_body s = Some (us, r) \<Longrightarrow> length r < length s"
proof (induction s arbitrary: us r rule: parse_string_body.induct)
  case 1
  then show ?case by simp
next
  case (2 c cs)
  show ?case
  proof (cases "c = dq")
    case True
    with "2.prems" show ?thesis by simp
  next
    case nq: False
    show ?thesis
    proof (cases "c = bs")
      case True
      show ?thesis
      proof (cases cs)
        case Nil
        with nq True "2.prems" show ?thesis by simp
      next
        case (Cons e es)
        show ?thesis
        proof (cases "e = CHR ''u''")
          case u: True
          show ?thesis
          proof (cases es)
            case Nil
            with nq True Cons u "2.prems" show ?thesis by simp
          next
            case e1: (Cons h1 es1)
            show ?thesis
            proof (cases es1)
              case Nil
              with nq True Cons u e1 "2.prems" show ?thesis by simp
            next
              case e2: (Cons h2 es2)
              show ?thesis
              proof (cases es2)
                case Nil
                with nq True Cons u e1 e2 "2.prems" show ?thesis by simp
              next
                case e3: (Cons h3 es3)
                show ?thesis
                proof (cases es3)
                  case Nil
                  with nq True Cons u e1 e2 e3 "2.prems" show ?thesis by simp
                next
                  case e4: (Cons h4 rest)
                  show ?thesis
                  proof (cases "unicode_escape h1 h2 h3 h4")
                    case None
                    with nq True Cons u e1 e2 e3 e4 "2.prems" show ?thesis by simp
                  next
                    case (Some v)
                    with nq True Cons u e1 e2 e3 e4 "2.prems"
                    obtain us' where "parse_string_body rest = Some (us', r)"
                      by (auto simp: cons_unit_Some)
                    with "2.IH"(1) [OF nq True Cons u e1 e2 e3 e4 Some]
                    have "length r < length rest" by simp
                    with Cons e1 e2 e3 e4 show ?thesis by simp
                  qed
                qed
              qed
            qed
          qed
        next
          case nu: False
          show ?thesis
          proof (cases "unescape e")
            case None
            with nq True Cons nu "2.prems" show ?thesis by simp
          next
            case (Some v)
            with nq True Cons nu "2.prems"
            obtain us' where "parse_string_body es = Some (us', r)"
              by (auto simp: cons_unit_Some)
            with "2.IH"(2) [OF nq True Cons nu Some]
            have "length r < length es" by simp
            with Cons show ?thesis by simp
          qed
        qed
      qed
    next
      case nb: False
      show ?thesis
      proof (cases "(of_char c :: nat) < 32")
        case True
        with nq nb "2.prems" show ?thesis by simp
      next
        case False
        with nq nb "2.prems"
        obtain us' where "parse_string_body cs = Some (us', r)"
          by (auto simp: cons_unit_Some)
        with "2.IH"(3) [OF nq nb False]
        have "length r < length cs" by simp
        then show ?thesis by simp
      qed
    qed
  qed
qed


lemma parse_digits_length: "parse_digits s = Some (ds, r) \<Longrightarrow> length r < length s"
proof -
  assume a: "parse_digits s = Some (ds, r)"
  then have "takeWhile is_digit s \<noteq> []" "r = dropWhile is_digit s"
    by (auto simp: parse_digits_def split: if_splits)
  moreover have "length (takeWhile is_digit s) + length (dropWhile is_digit s) = length s"
    by (metis length_append takeWhile_dropWhile_id)
  ultimately show ?thesis by (cases "takeWhile is_digit s") auto
qed

lemma parse_frac_length: "parse_frac s = Some (f, r) \<Longrightarrow> length r \<le> length s"
  by (auto simp: parse_frac_def split: list.splits if_splits option.splits
        dest!: parse_digits_length)

lemma parse_exp_sign_length: "length (snd (parse_exp_sign s)) \<le> length s"
  by (auto simp: parse_exp_sign_def split: list.splits)

lemma parse_exp_length: "parse_exp s = Some (f, r) \<Longrightarrow> length r \<le> length s"
proof (cases s)
  case Nil
  assume "parse_exp s = Some (f, r)"
  with Nil show ?thesis by (simp add: parse_exp_def)
next
  case (Cons c cs)
  assume a: "parse_exp s = Some (f, r)"
  show ?thesis
  proof (cases "c = CHR ''e'' \<or> c = CHR ''E''")
    case True
    with a Cons obtain ds where "parse_digits (snd (parse_exp_sign cs)) = Some (ds, r)"
      by (auto simp: parse_exp_def split: option.splits)
    then have "length r < length (snd (parse_exp_sign cs))" by (rule parse_digits_length)
    with parse_exp_sign_length [of cs] Cons show ?thesis by simp
  next
    case False
    with a Cons show ?thesis by (auto simp: parse_exp_def)
  qed
qed

lemma parse_int_part_length: "parse_int_part s = Some (i, r) \<Longrightarrow> length r < length s"
proof (cases s)
  case Nil
  assume "parse_int_part s = Some (i, r)"
  with Nil show ?thesis by (simp add: parse_int_part_def)
next
  case (Cons c cs)
  assume "parse_int_part s = Some (i, r)"
  with Cons have "r = cs \<or> r = dropWhile is_digit cs"
    by (auto simp: parse_int_part_def split: if_splits)
  with Cons length_dropWhile_le [of is_digit cs] show ?thesis by auto
qed

lemma parse_sign_length: "length (snd (parse_sign s)) \<le> length s"
  by (auto simp: parse_sign_def split: list.splits)

lemma parse_number_length: "parse_number s = Some (l, r) \<Longrightarrow> length r < length s"
proof -
  assume "parse_number s = Some (l, r)"
  then obtain ip s1 fp s2 ep where
    1: "parse_int_part (snd (parse_sign s)) = Some (ip, s1)" and
    2: "parse_frac s1 = Some (fp, s2)" and
    3: "parse_exp s2 = Some (ep, r)"
    by (auto simp: parse_number_def split: option.splits)
  from 1 have "length s1 < length (snd (parse_sign s))" by (rule parse_int_part_length)
  moreover from 2 have "length s2 \<le> length s1" by (rule parse_frac_length)
  moreover from 3 have "length r \<le> length s2" by (rule parse_exp_length)
  ultimately show ?thesis using parse_sign_length [of s] by simp
qed


lemma skip_ws_eq_length: "skip_ws s = x \<Longrightarrow> length x \<le> length s"
  using skip_ws_length [of s] by simp

text \<open>Every parser consumes input.\<close>

lemma parse_value_step_length:
  assumes m [rule_format]: "\<forall>s ms r. parse_members n s = Some (ms, r) \<longrightarrow> length r < length s"
    and e [rule_format]: "\<forall>s vs r. parse_elements n s = Some (vs, r) \<longrightarrow> length r < length s"
    and p: "parse_value (Suc n) s = Some (v, r)"
  shows "length r < length s"
proof (cases "skip_ws s")
  case Nil
  with p show ?thesis by simp
next
  case (Cons c cs)
  then have l: "length (c # cs) \<le> length s" by (rule skip_ws_eq_length)
  consider (obj) "c = CHR ''{''" | (arr) "c \<noteq> CHR ''{''" "c = CHR ''[''"
    | (str) "c \<noteq> CHR ''{''" "c \<noteq> CHR ''[''" "c = dq"
    | (other) "c \<noteq> CHR ''{''" "c \<noteq> CHR ''[''" "c \<noteq> dq"
    by blast
  then show ?thesis
  proof cases
    case obj
    show ?thesis
    proof (cases "skip_ws cs")
      case Nil
      with p Cons obj show ?thesis by simp
    next
      case inner: (Cons d ds)
      then have l2: "length (d # ds) \<le> length cs" by (rule skip_ws_eq_length)
      show ?thesis
      proof (cases "d = CHR ''}''")
        case True
        with p Cons obj inner have "r = ds" by simp
        with l l2 show ?thesis by simp
      next
        case False
        with p Cons obj inner obtain ms where "parse_members n (d # ds) = Some (ms, r)"
          by (auto split: option.splits)
        then have "length r < length (d # ds)" by (rule m)
        with l l2 show ?thesis by simp
      qed
    qed
  next
    case arr
    show ?thesis
    proof (cases "skip_ws cs")
      case Nil
      with p Cons arr show ?thesis by simp
    next
      case inner: (Cons d ds)
      then have l2: "length (d # ds) \<le> length cs" by (rule skip_ws_eq_length)
      show ?thesis
      proof (cases "d = CHR '']''")
        case True
        with p Cons arr inner have "r = ds" by simp
        with l l2 show ?thesis by simp
      next
        case False
        with p Cons arr inner obtain vs where "parse_elements n (d # ds) = Some (vs, r)"
          by (auto split: option.splits)
        then have "length r < length (d # ds)" by (rule e)
        with l l2 show ?thesis by simp
      qed
    qed
  next
    case str
    with p Cons obtain us where "parse_string_body cs = Some (us, r)"
      by (auto split: option.splits)
    then have "length r < length cs" by (rule parse_string_body_length)
    with l show ?thesis by simp
  next
    case other
    with p Cons have "r = drop 4 (c # cs) \<or> r = drop 5 (c # cs) \<or>
        (\<exists>lx. parse_number (c # cs) = Some (lx, r))"
      by (auto split: if_splits option.splits)
    then have "length r < length (c # cs)"
      by (auto dest: parse_number_length)
    with l show ?thesis by simp
  qed
qed


lemma parse_elements_step_length:
  assumes v [rule_format]: "\<forall>s v r. parse_value n s = Some (v, r) \<longrightarrow> length r < length s"
    and e [rule_format]: "\<forall>s vs r. parse_elements n s = Some (vs, r) \<longrightarrow> length r < length s"
    and p: "parse_elements (Suc n) s = Some (vs, r)"
  shows "length r < length s"
proof -
  from p obtain x r1 where pv: "parse_value n s = Some (x, r1)"
    by (auto split: option.splits)
  then have l1: "length r1 < length s" by (rule v)
  show ?thesis
  proof (cases "skip_ws r1")
    case Nil
    with p pv show ?thesis by simp
  next
    case (Cons c cs)
    then have l2: "length (c # cs) \<le> length r1" by (rule skip_ws_eq_length)
    show ?thesis
    proof (cases "c = CHR '']''")
      case True
      with p pv Cons have "r = cs" by simp
      with l1 l2 show ?thesis by simp
    next
      case False
      with p pv Cons obtain vs' where "parse_elements n cs = Some (vs', r)"
        by (auto split: if_splits option.splits)
      then have "length r < length cs" by (rule e)
      with l1 l2 show ?thesis by simp
    qed
  qed
qed

lemma parse_members_step_length:
  assumes v [rule_format]: "\<forall>s v r. parse_value n s = Some (v, r) \<longrightarrow> length r < length s"
    and m [rule_format]: "\<forall>s ms r. parse_members n s = Some (ms, r) \<longrightarrow> length r < length s"
    and p: "parse_members (Suc n) s = Some (ms, r)"
  shows "length r < length s"
proof (cases "skip_ws s")
  case Nil
  with p show ?thesis by simp
next
  case (Cons c cs)
  then have l: "length (c # cs) \<le> length s" by (rule skip_ws_eq_length)
  from p Cons have c: "c = dq" by (auto split: if_splits)
  with p Cons obtain k r1 where k: "parse_string_body cs = Some (k, r1)"
    by (auto split: option.splits)
  then have l1: "length r1 < length cs" by (rule parse_string_body_length)
  show ?thesis
  proof (cases "skip_ws r1")
    case Nil
    with p Cons c k show ?thesis by simp
  next
    case colon: (Cons d ds)
    then have l2: "length (d # ds) \<le> length r1" by (rule skip_ws_eq_length)
    from p Cons c k colon have d: "d = CHR '':''" by (auto split: if_splits)
    with p Cons c k colon obtain x r2 where x: "parse_value n ds = Some (x, r2)"
      by (auto split: option.splits)
    then have l3: "length r2 < length ds" by (rule v)
    show ?thesis
    proof (cases "skip_ws r2")
      case Nil
      with p Cons c k colon d x show ?thesis by simp
    next
      case sep: (Cons e es)
      then have l4: "length (e # es) \<le> length r2" by (rule skip_ws_eq_length)
      show ?thesis
      proof (cases "e = CHR ''}''")
        case True
        with p Cons c k colon d x sep have "r = es" by simp
        with l l1 l2 l3 l4 show ?thesis by simp
      next
        case False
        with p Cons c k colon d x sep obtain ms' where "parse_members n es = Some (ms', r)"
          by (auto split: if_splits option.splits)
        then have "length r < length es" by (rule m)
        with l l1 l2 l3 l4 show ?thesis by simp
      qed
    qed
  qed
qed

lemma parse_length:
  "(\<forall>s v r. parse_value n s = Some (v, r) \<longrightarrow> length r < length s) \<and>
   (\<forall>s vs r. parse_elements n s = Some (vs, r) \<longrightarrow> length r < length s) \<and>
   (\<forall>s ms r. parse_members n s = Some (ms, r) \<longrightarrow> length r < length s)"
proof (induction n)
  case 0
  show ?case by simp
next
  case (Suc n)
  then have v: "\<forall>s v r. parse_value n s = Some (v, r) \<longrightarrow> length r < length s"
    and e: "\<forall>s vs r. parse_elements n s = Some (vs, r) \<longrightarrow> length r < length s"
    and m: "\<forall>s ms r. parse_members n s = Some (ms, r) \<longrightarrow> length r < length s"
    by blast+
  have "\<forall>s v r. parse_value (Suc n) s = Some (v, r) \<longrightarrow> length r < length s"
    using parse_value_step_length [OF m e] by blast
  moreover have "\<forall>s vs r. parse_elements (Suc n) s = Some (vs, r) \<longrightarrow> length r < length s"
    using parse_elements_step_length [OF v e] by blast
  moreover have "\<forall>s ms r. parse_members (Suc n) s = Some (ms, r) \<longrightarrow> length r < length s"
    using parse_members_step_length [OF v m] by blast
  ultimately show ?case by blast
qed

lemma parse_value_length: "parse_value n s = Some (v, r) \<Longrightarrow> length r < length s"
  using parse_length [of n] by blast


lemma parse_elements_length: "parse_elements n s = Some (vs, r) \<Longrightarrow> length r < length s"
  using parse_length [of n] by blast

lemma parse_members_length: "parse_members n s = Some (ms, r) \<Longrightarrow> length r < length s"
  using parse_length [of n] by blast

text \<open>
  More fuel changes nothing once the bound exceeds twice the length of the text: the
  parsers then never stop for lack of fuel.
\<close>

lemma parse_value_fuel_step:
  assumes m [rule_format]:
      "\<forall>s. 2 * length s + 1 \<le> n \<longrightarrow> parse_members (Suc n) s = parse_members n s"
    and e [rule_format]:
      "\<forall>s. 2 * length s + 2 \<le> n \<longrightarrow> parse_elements (Suc n) s = parse_elements n s"
    and b: "2 * length s + 1 \<le> Suc n"
  shows "parse_value (Suc (Suc n)) s = parse_value (Suc n) s"
proof (cases "skip_ws s")
  case Nil
  then show ?thesis by simp
next
  case (Cons c cs)
  then have l: "length (c # cs) \<le> length s" by (rule skip_ws_eq_length)
  show ?thesis
  proof (cases "skip_ws cs")
    case Nil
    with Cons show ?thesis by simp
  next
    case inner: (Cons d ds)
    then have l2: "length (d # ds) \<le> length cs" by (rule skip_ws_eq_length)
    from b l l2 have "2 * length (d # ds) + 1 \<le> n" "2 * length (d # ds) + 2 \<le> n"
      by simp_all
    then have "parse_members (Suc n) (d # ds) = parse_members n (d # ds)"
      "parse_elements (Suc n) (d # ds) = parse_elements n (d # ds)"
      by (simp_all only: m e)
    then show ?thesis
      by (simp only: parse_value.simps Cons inner list.case)
  qed
qed

lemma parse_elements_fuel_step:
  assumes v [rule_format]:
      "\<forall>s. 2 * length s + 1 \<le> n \<longrightarrow> parse_value (Suc n) s = parse_value n s"
    and e [rule_format]:
      "\<forall>s. 2 * length s + 2 \<le> n \<longrightarrow> parse_elements (Suc n) s = parse_elements n s"
    and b: "2 * length s + 2 \<le> Suc n"
  shows "parse_elements (Suc (Suc n)) s = parse_elements (Suc n) s"
proof -
  from b have "2 * length s + 1 \<le> n" by simp
  then have pv: "parse_value (Suc n) s = parse_value n s" by (rule v)
  note L = parse_elements.simps(2) [of "Suc n" s]
  note R = parse_elements.simps(2) [of n s]
  show ?thesis
  proof (cases "parse_value n s")
    case None
    with pv show ?thesis by (simp only: L R option.case)
  next
    case (Some a)
    obtain x r1 where a: "a = (x, r1)" by (cases a)
    with Some have l1: "length r1 < length s" by (simp add: parse_value_length)
    from Some a have pn: "parse_value n s = Some (x, r1)" by simp
    show ?thesis
    proof (cases "skip_ws r1")
      case Nil
      show ?thesis by (simp only: L R pv pn Nil option.case prod.case list.case)
    next
      case (Cons c cs)
      then have l2: "length (c # cs) \<le> length r1" by (rule skip_ws_eq_length)
      from b l1 l2 have "2 * length cs + 2 \<le> n" by simp
      then have pe: "parse_elements (Suc n) cs = parse_elements n cs" by (rule e)
      show ?thesis by (simp only: L R pv pn Cons pe option.case prod.case list.case)
    qed
  qed
qed

lemma parse_members_fuel_step:
  assumes v [rule_format]:
      "\<forall>s. 2 * length s + 1 \<le> n \<longrightarrow> parse_value (Suc n) s = parse_value n s"
    and m [rule_format]:
      "\<forall>s. 2 * length s + 1 \<le> n \<longrightarrow> parse_members (Suc n) s = parse_members n s"
    and b: "2 * length s + 1 \<le> Suc n"
  shows "parse_members (Suc (Suc n)) s = parse_members (Suc n) s"
proof -
  note L = parse_members.simps(2) [of "Suc n" s]
  note R = parse_members.simps(2) [of n s]
  show ?thesis
  proof (cases "skip_ws s")
    case Nil
    show ?thesis by (simp only: L R Nil list.case)
  next
    case (Cons c cs)
    then have l: "length (c # cs) \<le> length s" by (rule skip_ws_eq_length)
    show ?thesis
    proof (cases "parse_string_body cs")
      case None
      show ?thesis by (simp only: L R Cons None list.case option.case)
    next
      case (Some a)
      obtain k r1 where a: "a = (k, r1)" by (cases a)
      with Some have ps: "parse_string_body cs = Some (k, r1)" by simp
      then have l1: "length r1 < length cs" by (rule parse_string_body_length)
      show ?thesis
      proof (cases "skip_ws r1")
        case Nil
        show ?thesis by (simp only: L R Cons ps Nil list.case option.case prod.case)
      next
        case colon: (Cons d ds)
        then have l2: "length (d # ds) \<le> length r1" by (rule skip_ws_eq_length)
        from b l l1 l2 have "2 * length ds + 1 \<le> n" by simp
        then have pv: "parse_value (Suc n) ds = parse_value n ds" by (rule v)
        show ?thesis
        proof (cases "parse_value n ds")
          case None
          show ?thesis
            by (simp only: L R Cons ps colon pv None list.case option.case prod.case)
        next
          case val: (Some a2)
          obtain x r2 where a2: "a2 = (x, r2)" by (cases a2)
          with val have pn: "parse_value n ds = Some (x, r2)" by simp
          then have l3: "length r2 < length ds" by (rule parse_value_length)
          show ?thesis
          proof (cases "skip_ws r2")
            case Nil
            show ?thesis
              by (simp only: L R Cons ps colon pv pn Nil list.case option.case prod.case)
          next
            case sep: (Cons e es)
            then have l4: "length (e # es) \<le> length r2" by (rule skip_ws_eq_length)
            from b l l1 l2 l3 l4 have "2 * length es + 1 \<le> n" by simp
            then have pm: "parse_members (Suc n) es = parse_members n es" by (rule m)
            show ?thesis
              by (simp only: L R Cons ps colon pv pn sep pm list.case option.case prod.case)
          qed
        qed
      qed
    qed
  qed
qed

lemma parse_fuel:
  "(\<forall>s. 2 * length s + 1 \<le> n \<longrightarrow> parse_value (Suc n) s = parse_value n s) \<and>
   (\<forall>s. 2 * length s + 2 \<le> n \<longrightarrow> parse_elements (Suc n) s = parse_elements n s) \<and>
   (\<forall>s. 2 * length s + 1 \<le> n \<longrightarrow> parse_members (Suc n) s = parse_members n s)"
proof (induction n)
  case 0
  show ?case by simp
next
  case (Suc n)
  then have v: "\<forall>s. 2 * length s + 1 \<le> n \<longrightarrow> parse_value (Suc n) s = parse_value n s"
    and e: "\<forall>s. 2 * length s + 2 \<le> n \<longrightarrow> parse_elements (Suc n) s = parse_elements n s"
    and m: "\<forall>s. 2 * length s + 1 \<le> n \<longrightarrow> parse_members (Suc n) s = parse_members n s"
    by blast+
  have "\<forall>s. 2 * length s + 1 \<le> Suc n \<longrightarrow> parse_value (Suc (Suc n)) s = parse_value (Suc n) s"
    using parse_value_fuel_step [OF m e] by blast
  moreover have "\<forall>s. 2 * length s + 2 \<le> Suc n \<longrightarrow>
      parse_elements (Suc (Suc n)) s = parse_elements (Suc n) s"
    using parse_elements_fuel_step [OF v e] by blast
  moreover have "\<forall>s. 2 * length s + 1 \<le> Suc n \<longrightarrow>
      parse_members (Suc (Suc n)) s = parse_members (Suc n) s"
    using parse_members_fuel_step [OF v m] by blast
  ultimately show ?case by blast
qed

lemma parse_value_fuel:
  "2 * length s + 2 \<le> n \<Longrightarrow> parse_value n s = parse_value (2 * length s + 2) s"
proof (induction n rule: dec_induct)
  case base
  show ?case by (rule refl)
next
  case (step n)
  then have "2 * length s + 1 \<le> n" by simp
  with parse_fuel [of n] have "parse_value (Suc n) s = parse_value n s" by blast
  also note step.IH
  finally show ?case .
qed

text \<open>\<open>JSON_parse\<close> gives the parser all the fuel it can use.\<close>

lemma JSON_parse_fuel:
  assumes "2 * length s + 2 \<le> n"
  shows "(case parse_value n s of
            None \<Rightarrow> None
          | Some (v, r) \<Rightarrow> if skip_ws r = [] then Some v else None) = JSON_parse s"
proof -
  from assms have "parse_value n s = parse_value (2 * length s + 2) s"
    by (rule parse_value_fuel)
  then show ?thesis unfolding JSON_parse_def by (rule arg_cong)
qed

section \<open>Lists of documents\<close>

lemma find_SomeD: "find P xs = Some x \<Longrightarrow> P x \<and> x \<in> set xs"
  by (induction xs) (auto split: if_splits)

lemma find_NoneD: "find P xs = None \<Longrightarrow> x \<in> set xs \<Longrightarrow> \<not> P x"
  by (induction xs) (auto split: if_splits)

lemma find_cong_set: "x \<in> set xs \<Longrightarrow> P x \<Longrightarrow> find P xs \<noteq> None"
  by (induction xs) auto

lemma updateOne_length [simp]: "length (updateOne i f ts) = length ts"
  by (induction ts) auto

lemma updateOne_map:
  "(\<And>t. g (f t) = g t) \<Longrightarrow> map g (updateOne i f ts) = map g ts"
  by (induction ts) auto

lemma updateOne_absent: "i \<notin> oid ` set ts \<Longrightarrow> updateOne i f ts = ts"
  by (induction ts) auto

lemma updateOne_map_at:
  "distinct (map oid ts) \<Longrightarrow> t \<in> set ts \<Longrightarrow> g (f t) = g t \<Longrightarrow>
     map g (updateOne (oid t) f ts) = map g ts"
  by (induction ts) (auto simp: updateOne_absent)

lemma updateOne_set:
  "distinct (map oid ts) \<Longrightarrow> t \<in> set ts \<Longrightarrow>
     set (updateOne (oid t) f ts) = insert (f t) (set ts - {t})"
proof (induction ts)
  case Nil
  then show ?case by simp
next
  case (Cons a ts)
  show ?case
  proof (cases "oid a = oid t")
    case True
    with Cons.prems have "a = t" by (auto simp: image_iff)
    moreover from Cons.prems have "a \<notin> set ts" by auto
    ultimately show ?thesis by auto
  next
    case False
    with Cons.prems have "t \<in> set ts" by auto
    with Cons.IH Cons.prems False show ?thesis by auto
  qed
qed

lemma updateOne_filter_at:
  "distinct (map oid ts) \<Longrightarrow> t \<in> set ts \<Longrightarrow> P (f t) = P t \<Longrightarrow> (P t \<Longrightarrow> g (f t) = g t) \<Longrightarrow>
     map g (filter P (updateOne (oid t) f ts)) = map g (filter P ts)"
  by (induction ts) (auto simp: updateOne_absent)

lemma mark_used_simps [simp]:
  "oid (mark_used p now t) = oid t"
  "ticketId (mark_used p now t) = ticketId t"
  "event (mark_used p now t) = event t"
  "user (mark_used p now t) = user t"
  "qrCode (mark_used p now t) = qrCode t"
  "price (mark_used p now t) = price t"
  "createdAt (mark_used p now t) = createdAt t"
  "status (mark_used p now t) = Used"
  "usedAt (mark_used p now t) = Some now"
  "usedBy (mark_used p now t) = Some (uid p)"
  "updatedAt (mark_used p now t) = now"
  by (simp_all add: mark_used_def)

lemma occupies_mark_used: "occupies (mark_used p now t)"
  by (simp add: occupies_def)


section \<open>The claim handler\<close>

text \<open>What the cast accepts passes the validation, and the cast changes only the case.\<close>

lemma castObjectId_isMongoId: "castObjectId x = Some e \<Longrightarrow> isMongoId x"
  by (auto simp: castObjectId_def isMongoId_def isHexadecimal_def hex_run_def split: if_splits)

lemma castObjectId_length: "castObjectId x = Some e \<Longrightarrow> length e = 24 \<and> length x = 24"
  by (auto simp: castObjectId_def split: if_splits)

text \<open>The answers of the claim handler, guard by guard.\<close>

lemma claim_invalid:
  "\<not> isMongoId x \<Longrightarrow> claim s p x now built saved uuid newId = (Inl ValidationFailed, s)"
  by (simp add: claim_def claim_reads_def)

lemma claim_cast_error:
  "isMongoId x \<Longrightarrow> castObjectId x = None \<Longrightarrow>
     claim s p x now built saved uuid newId = (Inl ServerError, s)"
  by (simp add: claim_def claim_reads_def)

lemma claim_no_event:
  "castObjectId x = Some e \<Longrightarrow> events s e = None \<Longrightarrow>
     claim s p x now built saved uuid newId = (Inl EventNotFound, s)"
  by (simp add: claim_def claim_reads_def castObjectId_isMongoId)

lemma claim_not_claimable:
  "castObjectId x = Some e \<Longrightarrow> events s e = Some ev \<Longrightarrow>
   ev_status ev \<noteq> Published \<or> \<not> isApproved ev \<Longrightarrow>
     claim s p x now built saved uuid newId = (Inl EventNotClaimable, s)"
  by (simp add: claim_def claim_reads_def castObjectId_isMongoId)

lemma claim_passed:
  "castObjectId x = Some e \<Longrightarrow> events s e = Some ev \<Longrightarrow> ev_status ev = Published \<Longrightarrow>
   isApproved ev \<Longrightarrow> date ev < now \<Longrightarrow>
     claim s p x now built saved uuid newId = (Inl EventPassed, s)"
  by (simp add: claim_def claim_reads_def castObjectId_isMongoId)

lemma findOne_guard:
  "findOne (\<lambda>t. event t = e \<and> user t = h \<and> (status t = Active \<or> status t = Used)) s = None
     \<longleftrightarrow> \<not> holds_ticket s e h"
  by (auto simp: findOne_def holds_ticket_def occupies_def find_None_iff list_ex_iff)

lemma findOne_guard_Some:
  "(\<exists>t'. findOne (\<lambda>t. event t = e \<and> user t = h \<and> (status t = Active \<or> status t = Used)) s = Some t')
     \<longleftrightarrow> holds_ticket s e h"
proof -
  have "(\<exists>t'. findOne (\<lambda>t. event t = e \<and> user t = h \<and> (status t = Active \<or> status t = Used)) s = Some t')
      \<longleftrightarrow> findOne (\<lambda>t. event t = e \<and> user t = h \<and> (status t = Active \<or> status t = Used)) s \<noteq> None"
    by (simp only: not_None_eq)
  then show ?thesis by (simp only: findOne_guard not_not)
qed

lemma claim_reads_already:
  "castObjectId x = Some e \<Longrightarrow> claimable s e ev now \<Longrightarrow> holds_ticket s e (uid p) \<Longrightarrow>
     claim_reads s p x now = Inl AlreadyClaimed"
  by (simp add: claim_reads_def claimable_def findOne_guard findOne_guard_Some
      castObjectId_isMongoId)

lemma claim_reads_sold_out:
  "castObjectId x = Some e \<Longrightarrow> claimable s e ev now \<Longrightarrow> \<not> holds_ticket s e (uid p) \<Longrightarrow>
   capacity ev \<le> countDocuments (\<lambda>t. event t = e \<and> status t = Active) s \<Longrightarrow>
     claim_reads s p x now = Inl SoldOut"
  by (simp add: claim_reads_def claimable_def findOne_guard findOne_guard_Some
      castObjectId_isMongoId)

lemma claim_reads_ok:
  "castObjectId x = Some e \<Longrightarrow> claimable s e ev now \<Longrightarrow> \<not> holds_ticket s e (uid p) \<Longrightarrow>
   countDocuments (\<lambda>t. event t = e \<and> status t = Active) s < capacity ev \<Longrightarrow>
     claim_reads s p x now = Inr (e, ev)"
  by (simp add: claim_reads_def claimable_def findOne_guard findOne_guard_Some
      castObjectId_isMongoId)

lemma claim_already:
  "castObjectId x = Some e \<Longrightarrow> claimable s e ev now \<Longrightarrow> holds_ticket s e (uid p) \<Longrightarrow>
     claim s p x now built saved uuid newId = (Inl AlreadyClaimed, s)"
  by (simp add: claim_def claim_reads_already)

lemma claim_sold_out:
  "castObjectId x = Some e \<Longrightarrow> claimable s e ev now \<Longrightarrow> \<not> holds_ticket s e (uid p) \<Longrightarrow>
   capacity ev \<le> countDocuments (\<lambda>t. event t = e \<and> status t = Active) s \<Longrightarrow>
     claim s p x now built saved uuid newId = (Inl SoldOut, s)"
  by (simp add: claim_def claim_reads_sold_out)

lemma claim_save:
  "castObjectId x = Some e \<Longrightarrow> claimable s e ev now \<Longrightarrow> \<not> holds_ticket s e (uid p) \<Longrightarrow>
   countDocuments (\<lambda>t. event t = e \<and> status t = Active) s < capacity ev \<Longrightarrow>
     claim s p x now built saved uuid newId =
       (case save_new (new_ticket p x e ev built saved uuid newId) s of
          None \<Rightarrow> (Inl ServerError, s)
        | Some s' \<Rightarrow> (Inr (new_ticket p x e ev built saved uuid newId), s'))"
  by (simp add: claim_def claim_reads_ok claim_write_def)

section \<open>The redemption and validation handlers\<close>

lemma resolvesD:
  "resolves s q t ev \<Longrightarrow> qrCode t = q \<and> t \<in> set (tickets s)"
  by (auto simp: resolves_def findOne_def dest: find_SomeD)

lemma qr_scan_reads_answers:
  "JSON_parse q = None \<Longrightarrow> qr_scan_reads s p q now = Inl Malformed"
  "JSON_parse q \<noteq> None \<Longrightarrow> findOne (\<lambda>d. qrCode d = q) s = None \<Longrightarrow>
     qr_scan_reads s p q now = Inl NotFound"
  "JSON_parse q \<noteq> None \<Longrightarrow> findOne (\<lambda>d. qrCode d = q) s = Some t \<Longrightarrow>
     events s (event t) = None \<Longrightarrow> qr_scan_reads s p q now = Inl ServerError"
  "JSON_parse q \<noteq> None \<Longrightarrow> findOne (\<lambda>d. qrCode d = q) s = Some t \<Longrightarrow>
     events s (event t) = Some ev \<Longrightarrow> organization ev \<notin> organizations s \<Longrightarrow>
     qr_scan_reads s p q now = Inl ServerError"
  "resolves s q t ev \<Longrightarrow> user_org p = None \<Longrightarrow> qr_scan_reads s p q now = Inl ServerError"
  "resolves s q t ev \<Longrightarrow> user_org p = Some org \<Longrightarrow> org \<noteq> organization ev \<Longrightarrow>
     qr_scan_reads s p q now = Inl WrongScope"
  "resolves s q t ev \<Longrightarrow> user_org p = Some (organization ev) \<Longrightarrow> status t \<noteq> Active \<Longrightarrow>
     qr_scan_reads s p q now = Inl NotActive"
  "resolves s q t ev \<Longrightarrow> user_org p = Some (organization ev) \<Longrightarrow> status t = Active \<Longrightarrow>
     date ev < now \<Longrightarrow> qr_scan_reads s p q now = Inl EventPassed"
  "resolves s q t ev \<Longrightarrow> user_org p = Some (organization ev) \<Longrightarrow> status t = Active \<Longrightarrow>
     now \<le> date ev \<Longrightarrow> qr_scan_reads s p q now = Inr t"
  by (auto simp: qr_scan_reads_def resolves_def)

lemma qr_scan_write_stored:
  "t \<in> set (tickets s) \<Longrightarrow>
     qr_scan_write s p t now =
       (Inr (mark_used p now t), s\<lparr>tickets := updateOne (oid t) (mark_used p now) (tickets s)\<rparr>)"
  by (auto simp: qr_scan_write_def list_ex_iff)

lemma qr_scan_malformed:
  "JSON_parse q = None \<Longrightarrow> qr_scan s p q now = (Inl Malformed, s)"
  by (simp add: qr_scan_def qr_scan_reads_answers)

lemma qr_scan_not_found:
  "JSON_parse q \<noteq> None \<Longrightarrow> findOne (\<lambda>d. qrCode d = q) s = None \<Longrightarrow>
     qr_scan s p q now = (Inl NotFound, s)"
  by (simp add: qr_scan_def qr_scan_reads_answers)

lemma qr_scan_wrong_scope:
  "resolves s q t ev \<Longrightarrow> user_org p = Some org \<Longrightarrow> org \<noteq> organization ev \<Longrightarrow>
     qr_scan s p q now = (Inl WrongScope, s)"
  by (simp add: qr_scan_def qr_scan_reads_answers(6))

lemma qr_scan_not_active:
  "resolves s q t ev \<Longrightarrow> user_org p = Some (organization ev) \<Longrightarrow> status t \<noteq> Active \<Longrightarrow>
     qr_scan s p q now = (Inl NotActive, s)"
  by (simp add: qr_scan_def qr_scan_reads_answers(7))

lemma qr_scan_passed:
  "resolves s q t ev \<Longrightarrow> user_org p = Some (organization ev) \<Longrightarrow> status t = Active \<Longrightarrow>
   date ev < now \<Longrightarrow>
     qr_scan s p q now = (Inl EventPassed, s)"
  by (simp add: qr_scan_def qr_scan_reads_answers(8))

lemma qr_scan_ok:
  "resolves s q t ev \<Longrightarrow> user_org p = Some (organization ev) \<Longrightarrow> status t = Active \<Longrightarrow>
   now \<le> date ev \<Longrightarrow>
     qr_scan s p q now =
       (Inr (mark_used p now t), s\<lparr>tickets := updateOne (oid t) (mark_used p now) (tickets s)\<rparr>)"
  by (simp add: qr_scan_def qr_scan_reads_answers(9) qr_scan_write_stored resolvesD)

lemma qr_scan_no_event:
  "JSON_parse q \<noteq> None \<Longrightarrow> findOne (\<lambda>d. qrCode d = q) s = Some t \<Longrightarrow>
   events s (event t) = None \<Longrightarrow>
     qr_scan s p q now = (Inl ServerError, s)"
  by (simp add: qr_scan_def qr_scan_reads_answers(3))

lemma qr_scan_no_organization:
  "JSON_parse q \<noteq> None \<Longrightarrow> findOne (\<lambda>d. qrCode d = q) s = Some t \<Longrightarrow>
   events s (event t) = Some ev \<Longrightarrow> organization ev \<notin> organizations s \<Longrightarrow>
     qr_scan s p q now = (Inl ServerError, s)"
  by (simp add: qr_scan_def qr_scan_reads_answers(4))

lemma qr_scan_no_user_org:
  "resolves s q t ev \<Longrightarrow> user_org p = None \<Longrightarrow> qr_scan s p q now = (Inl ServerError, s)"
  by (simp add: qr_scan_def qr_scan_reads_answers(5))

text \<open>The paths through the two QR handlers.\<close>

lemma qr_paths [case_names malformed not_found no_event no_organization no_user_org
    wrong_scope not_active passed ok]:
  obtains "JSON_parse q = None"
  | "JSON_parse q \<noteq> None" "findOne (\<lambda>d. qrCode d = q) s = None"
  | t where "JSON_parse q \<noteq> None" "findOne (\<lambda>d. qrCode d = q) s = Some t"
      "events s (event t) = None"
  | t ev where "JSON_parse q \<noteq> None" "findOne (\<lambda>d. qrCode d = q) s = Some t"
      "events s (event t) = Some ev" "organization ev \<notin> organizations s"
  | t ev where "resolves s q t ev" "user_org p = None"
  | t ev org where "resolves s q t ev" "user_org p = Some org" "org \<noteq> organization ev"
  | t ev where "resolves s q t ev" "user_org p = Some (organization ev)" "status t \<noteq> Active"
  | t ev where "resolves s q t ev" "user_org p = Some (organization ev)" "status t = Active"
      "date ev < now"
  | t ev where "resolves s q t ev" "user_org p = Some (organization ev)" "status t = Active"
      "now \<le> date ev"
proof (cases "JSON_parse q")
  case None
  then show ?thesis using that(1) by simp
next
  case pj: (Some j)
  show ?thesis
  proof (cases "findOne (\<lambda>d. qrCode d = q) s")
    case None
    with pj show ?thesis using that(2) by simp
  next
    case ft: (Some t)
    show ?thesis
    proof (cases "events s (event t)")
      case None
      with pj ft show ?thesis using that(3) by simp
    next
      case fe: (Some ev)
      show ?thesis
      proof (cases "organization ev \<in> organizations s")
        case False
        with pj ft fe show ?thesis using that(4) by simp
      next
        case True
        with pj ft fe have r: "resolves s q t ev" by (simp add: resolves_def)
        show ?thesis
        proof (cases "user_org p")
          case None
          with r show ?thesis using that(5) by simp
        next
          case (Some org)
          show ?thesis
          proof (cases "org = organization ev")
            case False
            with r Some show ?thesis using that(6) by simp
          next
            case True
            with Some have sc: "user_org p = Some (organization ev)" by simp
            show ?thesis
            proof (cases "status t = Active")
              case False
              with r sc show ?thesis using that(7) by simp
            next
              case True
              with r sc show ?thesis using that(8) that(9) by (cases "date ev < now") auto
            qed
          qed
        qed
      qed
    qed
  qed
qed

lemma qr_scan_InrD:
  "fst (qr_scan s p q now) = Inr t' \<Longrightarrow>
     \<exists>t ev. resolves s q t ev \<and> user_org p = Some (organization ev) \<and> status t = Active \<and>
            now \<le> date ev \<and> t' = mark_used p now t"
  by (rule qr_paths [where q = q and s = s and p = p and now = now])
     (auto simp: qr_scan_malformed qr_scan_not_found qr_scan_no_event qr_scan_no_organization
        qr_scan_no_user_org qr_scan_wrong_scope qr_scan_not_active qr_scan_passed qr_scan_ok)


lemmas qr_scan_answers =
  qr_scan_malformed qr_scan_not_found qr_scan_no_event qr_scan_no_organization
  qr_scan_no_user_org qr_scan_wrong_scope qr_scan_not_active qr_scan_passed qr_scan_ok

lemma qr_validate_answers:
  "JSON_parse q = None \<Longrightarrow> qr_validate s p q now = (Inl Malformed, s)"
  "JSON_parse q \<noteq> None \<Longrightarrow> findOne (\<lambda>d. qrCode d = q) s = None \<Longrightarrow>
     qr_validate s p q now = (Inl NotFound, s)"
  "JSON_parse q \<noteq> None \<Longrightarrow> findOne (\<lambda>d. qrCode d = q) s = Some t \<Longrightarrow>
     events s (event t) = None \<Longrightarrow> qr_validate s p q now = (Inl ServerError, s)"
  "JSON_parse q \<noteq> None \<Longrightarrow> findOne (\<lambda>d. qrCode d = q) s = Some t \<Longrightarrow>
     events s (event t) = Some ev \<Longrightarrow> organization ev \<notin> organizations s \<Longrightarrow>
     qr_validate s p q now = (Inl ServerError, s)"
  "resolves s q t ev \<Longrightarrow> user_org p = None \<Longrightarrow> qr_validate s p q now = (Inl ServerError, s)"
  "resolves s q t ev \<Longrightarrow> user_org p = Some org \<Longrightarrow> org \<noteq> organization ev \<Longrightarrow>
     qr_validate s p q now = (Inl WrongScope, s)"
  "resolves s q t ev \<Longrightarrow> user_org p = Some (organization ev) \<Longrightarrow> status t \<noteq> Active \<Longrightarrow>
     qr_validate s p q now = (Inl NotActive, s)"
  "resolves s q t ev \<Longrightarrow> user_org p = Some (organization ev) \<Longrightarrow> status t = Active \<Longrightarrow>
     date ev < now \<Longrightarrow> qr_validate s p q now = (Inl EventPassed, s)"
  "resolves s q t ev \<Longrightarrow> user_org p = Some (organization ev) \<Longrightarrow> status t = Active \<Longrightarrow>
     now \<le> date ev \<Longrightarrow> qr_validate s p q now = (Inr t, s)"
  by (auto simp: qr_validate_def resolves_def)

lemma tickets_validate_answers:
  "JSON_parse q = None \<Longrightarrow> tickets_validate s p q now = (Inl Malformed, s)"
  "JSON_parse q \<noteq> None \<Longrightarrow> findOne (\<lambda>d. qrCode d = q) s = None \<Longrightarrow>
     tickets_validate s p q now = (Inl NotFound, s)"
  "JSON_parse q \<noteq> None \<Longrightarrow> findOne (\<lambda>d. qrCode d = q) s = Some t \<Longrightarrow>
     events s (event t) = None \<Longrightarrow> tickets_validate s p q now = (Inl ServerError, s)"
  "JSON_parse q \<noteq> None \<Longrightarrow> findOne (\<lambda>d. qrCode d = q) s = Some t \<Longrightarrow>
     events s (event t) = Some ev \<Longrightarrow> organization ev \<notin> organizations s \<Longrightarrow>
     tickets_validate s p q now = (Inl ServerError, s)"
  "resolves s q t ev \<Longrightarrow> user_org p = None \<Longrightarrow> tickets_validate s p q now = (Inl ServerError, s)"
  "resolves s q t ev \<Longrightarrow> user_org p = Some org \<Longrightarrow> org \<noteq> organization ev \<Longrightarrow>
     tickets_validate s p q now = (Inl WrongScope, s)"
  "resolves s q t ev \<Longrightarrow> user_org p = Some (organization ev) \<Longrightarrow> status t \<noteq> Active \<Longrightarrow>
     tickets_validate s p q now = (Inl NotActive, s)"
  "resolves s q t ev \<Longrightarrow> user_org p = Some (organization ev) \<Longrightarrow> status t = Active \<Longrightarrow>
     date ev < now \<Longrightarrow> tickets_validate s p q now = (Inl EventPassed, s)"
  "resolves s q t ev \<Longrightarrow> user_org p = Some (organization ev) \<Longrightarrow> status t = Active \<Longrightarrow>
     now \<le> date ev \<Longrightarrow> tickets_validate s p q now = (Inr t, s)"
  by (auto simp: tickets_validate_def resolves_def)

text \<open>The paths through \<^verbatim>\<open>POST /api/tickets/:id/use\<close>.\<close>

lemma tickets_use_cast_error:
  "castObjectId x = None \<Longrightarrow> tickets_use s p x now = (Inl ServerError, s)"
  by (simp add: tickets_use_def)

lemma tickets_use_answers:
  "castObjectId x = Some i \<Longrightarrow> findOne (\<lambda>d. oid d = i) s = None \<Longrightarrow>
     tickets_use s p x now = (Inl NotFound, s)"
  "castObjectId x = Some i \<Longrightarrow> findOne (\<lambda>d. oid d = i) s = Some t \<Longrightarrow>
     events s (event t) = None \<Longrightarrow> tickets_use s p x now = (Inl ServerError, s)"
  "castObjectId x = Some i \<Longrightarrow> findOne (\<lambda>d. oid d = i) s = Some t \<Longrightarrow>
     events s (event t) = Some ev \<Longrightarrow> user_org p = None \<Longrightarrow>
     tickets_use s p x now = (Inl ServerError, s)"
  "castObjectId x = Some i \<Longrightarrow> findOne (\<lambda>d. oid d = i) s = Some t \<Longrightarrow>
     events s (event t) = Some ev \<Longrightarrow> user_org p = Some org \<Longrightarrow> org \<noteq> organization ev \<Longrightarrow>
     tickets_use s p x now = (Inl WrongScope, s)"
  "castObjectId x = Some i \<Longrightarrow> findOne (\<lambda>d. oid d = i) s = Some t \<Longrightarrow>
     events s (event t) = Some ev \<Longrightarrow> user_org p = Some (organization ev) \<Longrightarrow>
     status t \<noteq> Active \<Longrightarrow> tickets_use s p x now = (Inl NotActive, s)"
  "castObjectId x = Some i \<Longrightarrow> findOne (\<lambda>d. oid d = i) s = Some t \<Longrightarrow>
     events s (event t) = Some ev \<Longrightarrow> user_org p = Some (organization ev) \<Longrightarrow>
     status t = Active \<Longrightarrow>
     tickets_use s p x now =
       (Inr (), s\<lparr>tickets := updateOne (oid t) (mark_used p now) (tickets s)\<rparr>)"
  by (auto simp: tickets_use_def)

lemma tickets_use_paths [case_names cast_error not_found no_event no_user_org wrong_scope
    not_active ok]:
  obtains "castObjectId x = None"
  | i where "castObjectId x = Some i" "findOne (\<lambda>d. oid d = i) s = None"
  | i t where "castObjectId x = Some i" "findOne (\<lambda>d. oid d = i) s = Some t"
      "events s (event t) = None"
  | i t ev where "castObjectId x = Some i" "findOne (\<lambda>d. oid d = i) s = Some t"
      "events s (event t) = Some ev" "user_org p = None"
  | i t ev org where "castObjectId x = Some i" "findOne (\<lambda>d. oid d = i) s = Some t"
      "events s (event t) = Some ev" "user_org p = Some org" "org \<noteq> organization ev"
  | i t ev where "castObjectId x = Some i" "findOne (\<lambda>d. oid d = i) s = Some t"
      "events s (event t) = Some ev" "user_org p = Some (organization ev)" "status t \<noteq> Active"
  | i t ev where "castObjectId x = Some i" "findOne (\<lambda>d. oid d = i) s = Some t"
      "events s (event t) = Some ev" "user_org p = Some (organization ev)" "status t = Active"
proof (cases "castObjectId x")
  case None
  then show ?thesis using that(1) by simp
next
  case ci: (Some i)
  show ?thesis
  proof (cases "findOne (\<lambda>d. oid d = i) s")
    case None
    with ci show ?thesis using that(2) by simp
  next
    case ft: (Some t)
    show ?thesis
    proof (cases "events s (event t)")
      case None
      with ci ft show ?thesis using that(3) by simp
    next
      case fe: (Some ev)
      show ?thesis
      proof (cases "user_org p")
        case None
        with ci ft fe show ?thesis using that(4) by simp
      next
        case (Some org)
        show ?thesis
        proof (cases "org = organization ev")
          case False
          with ci ft fe Some show ?thesis using that(5) by simp
        next
          case True
          with Some have "user_org p = Some (organization ev)" by simp
          with ci ft fe show ?thesis using that(6) that(7) by (cases "status t = Active") auto
        qed
      qed
    qed
  qed
qed

lemma tickets_use_error_unchanged:
  "isl (fst (tickets_use s p x now)) \<Longrightarrow> snd (tickets_use s p x now) = s"
  by (rule tickets_use_paths [where x = x and s = s and p = p])
     (simp_all add: tickets_use_answers tickets_use_cast_error)

lemma qr_validate_unchanged: "snd (qr_validate s p q now) = s"
  by (rule qr_paths [where q = q and s = s and p = p and now = now])
     (simp_all add: qr_validate_answers)

lemma tickets_validate_unchanged: "snd (tickets_validate s p q now) = s"
  by (rule qr_paths [where q = q and s = s and p = p and now = now])
     (simp_all add: tickets_validate_answers)


section \<open>Requests and the collection of tickets\<close>

lemma save_new_Some:
  "save_new t s = Some s' \<longleftrightarrow>
     schema_valid t \<and> \<not> duplicate_key t s \<and> s' = s\<lparr>tickets := tickets s @ [t]\<rparr>"
  by (auto simp: save_new_def)

lemma save_new_None: "save_new t s = None \<longleftrightarrow> \<not> schema_valid t \<or> duplicate_key t s"
  by (auto simp: save_new_def)

lemma claim_save_failed:
  "castObjectId x = Some e \<Longrightarrow> claimable s e ev now \<Longrightarrow> \<not> holds_ticket s e (uid p) \<Longrightarrow>
   countDocuments (\<lambda>t. event t = e \<and> status t = Active) s < capacity ev \<Longrightarrow>
   save_new (new_ticket p x e ev built saved uuid newId) s = None \<Longrightarrow>
     claim s p x now built saved uuid newId = (Inl ServerError, s)"
  by (simp add: claim_save)

lemma claim_ok:
  "castObjectId x = Some e \<Longrightarrow> claimable s e ev now \<Longrightarrow> \<not> holds_ticket s e (uid p) \<Longrightarrow>
   countDocuments (\<lambda>t. event t = e \<and> status t = Active) s < capacity ev \<Longrightarrow>
   save_new (new_ticket p x e ev built saved uuid newId) s = Some s' \<Longrightarrow>
     claim s p x now built saved uuid newId = (Inr (new_ticket p x e ev built saved uuid newId), s')"
  by (simp add: claim_save)

lemmas claim_answers =
  claim_invalid claim_cast_error claim_no_event claim_not_claimable claim_passed claim_already
  claim_sold_out claim_save_failed claim_ok

lemma claim_paths [case_names invalid cast_error no_event not_claimable passed already sold_out
    save_failed ok]:
  obtains "\<not> isMongoId x"
  | "isMongoId x" "castObjectId x = None"
  | e where "castObjectId x = Some e" "events s e = None"
  | e ev where "castObjectId x = Some e" "events s e = Some ev"
      "ev_status ev \<noteq> Published \<or> \<not> isApproved ev"
  | e ev where "castObjectId x = Some e" "events s e = Some ev" "ev_status ev = Published"
      "isApproved ev" "date ev < now"
  | e ev where "castObjectId x = Some e" "claimable s e ev now" "holds_ticket s e (uid p)"
  | e ev where "castObjectId x = Some e" "claimable s e ev now" "\<not> holds_ticket s e (uid p)"
      "capacity ev \<le> countDocuments (\<lambda>t. event t = e \<and> status t = Active) s"
  | e ev where "castObjectId x = Some e" "claimable s e ev now" "\<not> holds_ticket s e (uid p)"
      "countDocuments (\<lambda>t. event t = e \<and> status t = Active) s < capacity ev"
      "save_new (new_ticket p x e ev built saved uuid newId) s = None"
  | e ev s' where "castObjectId x = Some e" "claimable s e ev now"
      "\<not> holds_ticket s e (uid p)"
      "countDocuments (\<lambda>t. event t = e \<and> status t = Active) s < capacity ev"
      "save_new (new_ticket p x e ev built saved uuid newId) s = Some s'"
proof (cases "castObjectId x")
  case None
  then show ?thesis using that(1) that(2) by (cases "isMongoId x") simp_all
next
  case ce: (Some e)
  show ?thesis
  proof (cases "events s e")
    case None
    with ce show ?thesis using that(3) by simp
  next
    case fe: (Some ev)
    show ?thesis
    proof (cases "ev_status ev \<noteq> Published \<or> \<not> isApproved ev")
      case True
      with ce fe show ?thesis using that(4) by simp
    next
      case pub: False
      show ?thesis
      proof (cases "date ev < now")
        case True
        with ce fe pub show ?thesis using that(5) by simp
      next
        case False
        with fe pub have c: "claimable s e ev now" by (simp add: claimable_def)
        show ?thesis
        proof (cases "holds_ticket s e (uid p)")
          case True
          with ce c show ?thesis using that(6) by simp
        next
          case h: False
          show ?thesis
          proof (cases "capacity ev \<le> countDocuments (\<lambda>t. event t = e \<and> status t = Active) s")
            case True
            with ce c h show ?thesis using that(7) by simp
          next
            case False
            then have lt: "countDocuments (\<lambda>t. event t = e \<and> status t = Active) s < capacity ev"
              by simp
            show ?thesis
            proof (cases "save_new (new_ticket p x e ev built saved uuid newId) s")
              case None
              with ce c h lt show ?thesis using that(8) by simp
            next
              case (Some s')
              with ce c h lt show ?thesis using that(9) by simp
            qed
          qed
        qed
      qed
    qed
  qed
qed

lemma claim_error_unchanged:
  "isl (fst (claim s p x now built saved uuid newId)) \<Longrightarrow> snd (claim s p x now built saved uuid newId) = s"
  by (rule claim_paths [where x = x and s = s and p = p and now = now and built = built
        and saved = saved and uuid = uuid and newId = newId])
     (simp_all add: claim_answers)

lemma new_ticket_simps [simp]:
  "oid (new_ticket p x e ev built saved uuid newId) = newId"
  "ticketId (new_ticket p x e ev built saved uuid newId) = uuid"
  "event (new_ticket p x e ev built saved uuid newId) = e"
  "user (new_ticket p x e ev built saved uuid newId) = uid p"
  "qrCode (new_ticket p x e ev built saved uuid newId) =
     stringify_qr uuid x (uid p) (toISOString built)"
  "status (new_ticket p x e ev built saved uuid newId) = Active"
  "usedAt (new_ticket p x e ev built saved uuid newId) = None"
  "usedBy (new_ticket p x e ev built saved uuid newId) = None"
  "createdAt (new_ticket p x e ev built saved uuid newId) = saved"
  "updatedAt (new_ticket p x e ev built saved uuid newId) = saved"
  by (simp_all add: new_ticket_def)

text \<open>What a request does to the collection of tickets.\<close>

lemma claim_tickets:
  obtains "snd (claim s p x now built saved uuid newId) = s"
  | e ev where "castObjectId x = Some e" "claimable s e ev now" "\<not> holds_ticket s e (uid p)"
      "\<not> duplicate_key (new_ticket p x e ev built saved uuid newId) s"
      "snd (claim s p x now built saved uuid newId) =
         s\<lparr>tickets := tickets s @ [new_ticket p x e ev built saved uuid newId]\<rparr>"
  by (rule claim_paths [where x = x and s = s and p = p and now = now and built = built
        and saved = saved and uuid = uuid and newId = newId])
     (simp_all add: claim_answers save_new_Some)

lemma admin_delete_user_tickets:
  "tickets (snd (admin_delete_user s x)) =
     (case castObjectId x of
        None \<Rightarrow> tickets s
      | Some u \<Rightarrow> if u \<in> users s then filter (\<lambda>t. user t \<noteq> u) (tickets s) else tickets s)"
  by (simp add: admin_delete_user_def split: option.splits)

lemma admin_delete_event_tickets:
  "tickets (snd (admin_delete_event s x)) =
     (case castObjectId x of
        None \<Rightarrow> tickets s
      | Some e \<Rightarrow>
          if events s e \<noteq> None then filter (\<lambda>t. event t \<noteq> e) (tickets s) else tickets s)"
  by (simp add: admin_delete_event_def split: option.splits)

lemma step_tickets [case_names same claimed redeemed deleted]:
  obtains "tickets (step s r) = tickets s"
  | t where "status t = Active" "\<not> holds_ticket s (event t) (user t)" "\<not> duplicate_key t s"
      "tickets (step s r) = tickets s @ [t]"
  | t p now where "t \<in> set (tickets s)" "status t = Active"
      "tickets (step s r) = updateOne (oid t) (mark_used p now) (tickets s)"
  | P where "tickets (step s r) = filter P (tickets s)"
proof (cases r)
  case (Claim p x now built saved uuid newId)
  show ?thesis
  proof (rule claim_tickets [where x = x and s = s and p = p and now = now and built = built
        and saved = saved and uuid = uuid and newId = newId])
    assume "snd (claim s p x now built saved uuid newId) = s"
    with Claim show ?thesis using that(1) by simp
  next
    fix e ev
    assume "castObjectId x = Some e" "claimable s e ev now" "\<not> holds_ticket s e (uid p)"
      "\<not> duplicate_key (new_ticket p x e ev built saved uuid newId) s"
      "snd (claim s p x now built saved uuid newId) =
         s\<lparr>tickets := tickets s @ [new_ticket p x e ev built saved uuid newId]\<rparr>"
    with Claim show ?thesis
      using that(2) [of "new_ticket p x e ev built saved uuid newId"] by simp
  qed
next
  case (QrValidate p q now)
  then show ?thesis using that(1) by (simp add: qr_validate_unchanged)
next
  case (QrScan p q now)
  show ?thesis
  proof (rule qr_paths [where q = q and s = s and p = p and now = now])
    fix t ev
    assume a: "resolves s q t ev" "user_org p = Some (organization ev)" "status t = Active"
      "now \<le> date ev"
    then have "t \<in> set (tickets s)" by (simp add: resolvesD)
    with a QrScan show ?thesis using that(3) [of t p now] by (simp add: qr_scan_ok)
  qed (use QrScan that(1) in \<open>simp_all add: qr_scan_answers\<close>)
next
  case (TicketsValidate p q now)
  then show ?thesis using that(1) by (simp add: tickets_validate_unchanged)
next
  case (TicketsUse p x now)
  show ?thesis
  proof (rule tickets_use_paths [where x = x and s = s and p = p])
    fix i t ev
    assume a: "castObjectId x = Some i" "findOne (\<lambda>d. oid d = i) s = Some t"
      "events s (event t) = Some ev" "user_org p = Some (organization ev)" "status t = Active"
    then have "t \<in> set (tickets s)" by (auto simp: findOne_def dest: find_SomeD)
    with a TicketsUse show ?thesis using that(3) [of t p now] by (simp add: tickets_use_answers)
  qed (use TicketsUse that(1) in \<open>simp_all add: tickets_use_answers tickets_use_cast_error\<close>)
next
  case (AdminDeleteUser x)
  show ?thesis
  proof (cases "castObjectId x")
    case None
    with AdminDeleteUser show ?thesis using that(1) by (simp add: admin_delete_user_tickets)
  next
    case (Some u)
    with AdminDeleteUser show ?thesis
      using that(1) that(4) [of "\<lambda>t. user t \<noteq> u"]
      by (cases "u \<in> users s") (simp_all add: admin_delete_user_tickets)
  qed
next
  case (AdminDeleteEvent x)
  show ?thesis
  proof (cases "castObjectId x")
    case None
    with AdminDeleteEvent show ?thesis using that(1) by (simp add: admin_delete_event_tickets)
  next
    case (Some e)
    with AdminDeleteEvent show ?thesis
      using that(1) that(4) [of "\<lambda>t. event t \<noteq> e"]
      by (cases "events s e") (simp_all add: admin_delete_event_tickets)
  qed
next
  case (OtherWrite evs orgs usrs)
  then show ?thesis using that(1) by simp
qed


text \<open>The two invariants of the collection.\<close>

lemma unique_ids_step: "unique_ids s \<Longrightarrow> unique_ids (step s r)"
proof (rule step_tickets [where s = s and r = r])
  fix t
  assume "unique_ids s" "\<not> duplicate_key t s" "tickets (step s r) = tickets s @ [t]"
  then show ?thesis
    by (auto simp: unique_ids_def duplicate_key_def list_ex_iff)
next
  fix t p now
  assume "unique_ids s" "tickets (step s r) = updateOne (oid t) (mark_used p now) (tickets s)"
  then show ?thesis
    by (simp add: unique_ids_def updateOne_map)
next
  fix P
  assume "unique_ids s" "tickets (step s r) = filter P (tickets s)"
  then show ?thesis
    by (simp add: unique_ids_def distinct_map_filter)
qed (simp add: unique_ids_def)

lemma one_per_holder_step:
  "unique_ids s \<Longrightarrow> one_per_holder s \<Longrightarrow> one_per_holder (step s r)"
proof (rule step_tickets [where s = s and r = r])
  fix t
  assume "one_per_holder s" "status t = Active" "\<not> holds_ticket s (event t) (user t)"
    "tickets (step s r) = tickets s @ [t]"
  then show ?thesis
    by (auto simp: one_per_holder_def holds_ticket_def occupies_def list_ex_iff)
next
  fix t p now
  assume a: "unique_ids s" "one_per_holder s" "t \<in> set (tickets s)" "status t = Active"
    "tickets (step s r) = updateOne (oid t) (mark_used p now) (tickets s)"
  have "map (\<lambda>t. (event t, user t)) (filter occupies (updateOne (oid t) (mark_used p now) (tickets s)))
      = map (\<lambda>t. (event t, user t)) (filter occupies (tickets s))"
    using a(1,3,4) by (intro updateOne_filter_at) (simp_all add: unique_ids_def occupies_def)
  with a show ?thesis by (simp add: one_per_holder_def)
next
  fix P
  assume a: "one_per_holder s" "tickets (step s r) = filter P (tickets s)"
  have c: "filter occupies (filter P (tickets s)) = filter P (filter occupies (tickets s))"
    by (simp add: conj_commute)
  from a(1) have "distinct (map (\<lambda>t. (event t, user t)) (filter P (filter occupies (tickets s))))"
    unfolding one_per_holder_def by (rule distinct_map_filter)
  with a(2) c show ?thesis by (simp only: one_per_holder_def)
qed (simp add: one_per_holder_def)

lemma invariants_run:
  "unique_ids s \<Longrightarrow> one_per_holder s \<Longrightarrow> unique_ids (run s rs) \<and> one_per_holder (run s rs)"
  unfolding run_def
  by (induction rs arbitrary: s) (simp_all add: unique_ids_step one_per_holder_step)

lemma invariants_empty: "unique_ids empty_store \<and> one_per_holder empty_store"
  by (simp add: unique_ids_def one_per_holder_def empty_store_def)


section \<open>More on lists and the invariant\<close>


lemma distinct_map_filter_le:
  "distinct (map f xs) \<longleftrightarrow> (\<forall>y. length (filter (\<lambda>x. f x = y) xs) \<le> 1)"
proof (induction xs)
  case Nil
  then show ?case by simp
next
  case (Cons a xs)
  show ?case
  proof
    assume d: "distinct (map f (a # xs))"
    then have na: "filter (\<lambda>x. f x = f a) xs = []"
      by (auto simp: filter_empty_conv image_iff)
    from d Cons.IH have "\<forall>y. length (filter (\<lambda>x. f x = y) xs) \<le> 1" by simp
    with na show "\<forall>y. length (filter (\<lambda>x. f x = y) (a # xs)) \<le> 1" by auto
  next
    assume r: "\<forall>y. length (filter (\<lambda>x. f x = y) (a # xs)) \<le> 1"
    then have "length (filter (\<lambda>x. f x = f a) (a # xs)) \<le> 1" by blast
    then have "filter (\<lambda>x. f x = f a) xs = []" by simp
    then have na: "f a \<notin> f ` set xs" by (auto simp: filter_empty_conv)
    have "\<forall>y. length (filter (\<lambda>x. f x = y) xs) \<le> 1"
    proof
      fix y
      from r have "length (filter (\<lambda>x. f x = y) (a # xs)) \<le> 1" by blast
      then show "length (filter (\<lambda>x. f x = y) xs) \<le> 1" by (simp split: if_splits)
    qed
    with Cons.IH na show "distinct (map f (a # xs))" by simp
  qed
qed

text \<open>The executable form of the invariant says what its name promises.\<close>

lemma one_per_holder_count:
  "one_per_holder s \<longleftrightarrow>
     (\<forall>e h. length (filter (\<lambda>t. event t = e \<and> user t = h \<and> occupies t) (tickets s)) \<le> 1)"
proof -
  have "\<And>e h. filter (\<lambda>t. (event t, user t) = (e, h)) (filter occupies (tickets s))
          = filter (\<lambda>t. event t = e \<and> user t = h \<and> occupies t) (tickets s)"
    by (auto intro: filter_cong)
  then show ?thesis
    by (simp add: one_per_holder_def distinct_map_filter_le [where f = "\<lambda>t. (event t, user t)"])
qed

lemma holds_ticket_count:
  "holds_ticket s e h \<longleftrightarrow>
     0 < length (filter (\<lambda>t. event t = e \<and> user t = h \<and> occupies t) (tickets s))"
  by (auto simp: holds_ticket_def list_ex_iff filter_empty_conv)

lemma units_inject: "units a = units b \<longleftrightarrow> a = b"
  by (auto simp: units_def inj_map_eq_map [OF inj_of_char])


section \<open>Capacity\<close>

text \<open>What the capacity check of the claim handler decides, and on which count.\<close>

lemma claim_sold_out_iff:
  "fst (claim s p x now built saved uuid newId) = Inl SoldOut \<longleftrightarrow>
     (\<exists>e ev. castObjectId x = Some e \<and> claimable s e ev now \<and> \<not> holds_ticket s e (uid p) \<and>
           capacity ev \<le> countDocuments (\<lambda>t. event t = e \<and> status t = Active) s)"
proof
  assume a: "fst (claim s p x now built saved uuid newId) = Inl SoldOut"
  show "\<exists>e ev. castObjectId x = Some e \<and> claimable s e ev now \<and> \<not> holds_ticket s e (uid p) \<and>
           capacity ev \<le> countDocuments (\<lambda>t. event t = e \<and> status t = Active) s"
    by (rule claim_paths [where x = x and s = s and p = p and now = now and built = built
          and saved = saved and uuid = uuid and newId = newId])
       (use a in \<open>auto simp: claim_answers\<close>)
next
  assume "\<exists>e ev. castObjectId x = Some e \<and> claimable s e ev now \<and> \<not> holds_ticket s e (uid p) \<and>
           capacity ev \<le> countDocuments (\<lambda>t. event t = e \<and> status t = Active) s"
  then show "fst (claim s p x now built saved uuid newId) = Inl SoldOut"
    by (auto simp: claim_sold_out)
qed

lemma get_event_remaining:
  "castObjectId x = Some e \<Longrightarrow> events s e = Some ev \<Longrightarrow>
     get_event s x =
       Inr \<lparr> view_event = ev,
             ticketsIssued = countDocuments (\<lambda>t. event t = e \<and> status t = Active) s,
             remainingCapacity =
               capacity ev - countDocuments (\<lambda>t. event t = e \<and> status t = Active) s \<rparr>"
  by (simp add: get_event_def Let_def)

text \<open>
  C1. The claim: the tickets of an event in status active or used never exceed its
  capacity, because a claim request answers SoldOut exactly when that count has reached the
  capacity. The handler counts the tickets in status active only
  (\<open>claim_sold_out_iff\<close>), and a failed request changes nothing
  (\<open>claim_error_unchanged\<close>). In the small database the
  event has capacity one; Alice's ticket has been scanned and is used, so the occupied count
  is one. Bob's claim is accepted all the same, and the event then has two occupying tickets.
\<close>

theorem claim_ignores_used_tickets:
  "events store2 E1 = Some ev1 \<and> capacity ev1 = 1 \<and> occupied store2 E1 = 1 \<and>
   countDocuments (\<lambda>t. event t = E1 \<and> status t = Active) store2 = 0 \<and>
   \<not> isl (fst (claim store2 bob E1 30 31 32 ''uuid-2'' T2)) \<and>
   occupied (snd (claim store2 bob E1 30 31 32 ''uuid-2'' T2)) E1 = 2"
  by code_simp

theorem claim_ignores_used_tickets_witness:
  "capacity ev1 < occupied (snd (claim store2 bob E1 30 31 32 ''uuid-2'' T2)) E1"
  using claim_ignores_used_tickets by simp

section \<open>One ticket for each event and holder\<close>

text \<open>
  C2. The claim: for every event and holder at most one ticket is active or used, every
  operation preserves this, and a claim request of a holder who has such a ticket fails with
  AlreadyClaimed and creates no ticket. Two things stand against it as it is written. The
  handler checks the event before it looks for a ticket of the holder, so the request of a
  holder who has a ticket ends at the first of these checks that fails. And the handler
  looks for the holder's ticket in one database operation and saves the new one in another,
  with no unique index on event and holder: of two requests of one holder that overlap,
  both can pass the guard, and both save. What holds is this. When requests are handled
  one at a time, every request preserves the invariant, in a database whose documents have
  different ids, and so the invariant holds in every database that such requests build
  from the empty one. A claim request for an event of which the holder has an active or
  used ticket changes nothing, and its answer is EventNotFound when the event document
  no longer exists, EventNotClaimable when the event is not published or not approved,
  EventPassed when its date has passed, and AlreadyClaimed in every other case.
\<close>

theorem duplicate_guard:
  "(unique_ids s \<and> one_per_holder s \<longrightarrow> unique_ids (step s r) \<and> one_per_holder (step s r)) \<and>
   unique_ids (run empty_store rs) \<and> one_per_holder (run empty_store rs) \<and>
   (castObjectId x = Some e \<and> holds_ticket s e (uid p) \<longrightarrow>
      claim s p x now built saved uuid newId =
        (Inl (case events s e of
                None \<Rightarrow> EventNotFound
              | Some ev \<Rightarrow>
                  if ev_status ev \<noteq> Published \<or> \<not> isApproved ev then EventNotClaimable
                  else if date ev < now then EventPassed
                  else AlreadyClaimed), s))"
proof -
  have inv: "unique_ids s \<and> one_per_holder s \<longrightarrow> unique_ids (step s r) \<and> one_per_holder (step s r)"
    by (simp add: unique_ids_step one_per_holder_step)
  have reach: "unique_ids (run empty_store rs) \<and> one_per_holder (run empty_store rs)"
    using invariants_empty by (simp add: invariants_run)
  have answer: "claim s p x now built saved uuid newId =
        (Inl (case events s e of
                None \<Rightarrow> EventNotFound
              | Some ev \<Rightarrow>
                  if ev_status ev \<noteq> Published \<or> \<not> isApproved ev then EventNotClaimable
                  else if date ev < now then EventPassed
                  else AlreadyClaimed), s)"
    if c: "castObjectId x = Some e" and h: "holds_ticket s e (uid p)"
  proof (cases "events s e")
    case None
    with c show ?thesis by (simp add: claim_no_event)
  next
    case (Some ev)
    show ?thesis
    proof (cases "ev_status ev \<noteq> Published \<or> \<not> isApproved ev")
      case True
      with c Some show ?thesis by (simp add: claim_not_claimable)
    next
      case pub: False
      show ?thesis
      proof (cases "date ev < now")
        case True
        with c Some pub show ?thesis by (simp add: claim_passed)
      next
        case False
        with Some pub have "claimable s e ev now" by (simp add: claimable_def)
        from claim_already [OF c this h] Some pub False show ?thesis by simp
      qed
    qed
  qed
  from inv reach answer show ?thesis by blast
qed

text \<open>
  Alice holds a ticket for the event and asks again after its date: the handler answers
  that the event has passed. And when two requests of Alice for the event both make their
  reads in the database without tickets, both pass the guard and the capacity check; their
  two saves, one after the other, leave two active tickets of Alice for the event.
\<close>

theorem duplicate_guard_counterexample:
  "\<not> (holds_ticket store1 E1 (uid alice) \<longrightarrow>
        fst (claim store1 alice E1 2000 2001 2002 ''uuid-2'' T2) = Inl AlreadyClaimed) \<and>
   one_per_holder store0 \<and>
   claim_reads store0 alice E1 10 = Inr (E1, ev1) \<and>
   claim_reads store0 alice E1 11 = Inr (E1, ev1) \<and>
   \<not> isl (fst (claim_write store0 alice E1 E1 ev1 11 12 ''uuid-1'' T1)) \<and>
   \<not> isl (fst (claim_write (snd (claim_write store0 alice E1 E1 ev1 11 12 ''uuid-1'' T1))
                  alice E1 E1 ev1 12 13 ''uuid-2'' T2)) \<and>
   \<not> one_per_holder
        (snd (claim_write (snd (claim_write store0 alice E1 E1 ev1 11 12 ''uuid-1'' T1))
                alice E1 E1 ev1 12 13 ''uuid-2'' T2))"
  by code_simp

theorem duplicate_guard_witness:
  "one_per_holder (step store1 (Claim bob E1 30 31 32 ''uuid-2'' T2)) \<and>
   claim store1 alice E1 30 31 32 ''uuid-2'' T2 = (Inl AlreadyClaimed, store1) \<and>
   claim store1 alice E1 2000 2001 2002 ''uuid-2'' T2 = (Inl EventPassed, store1)"
proof -
  have u: "unique_ids store1" by code_simp
  have o: "one_per_holder store1" by code_simp
  have c: "castObjectId E1 = Some E1" by code_simp
  have h: "holds_ticket store1 E1 (uid alice)" by code_simp
  have e: "events store1 E1 = Some ev1" by code_simp
  have v: "ev_status ev1 = Published \<and> isApproved ev1 \<and> date ev1 = 1000" by code_simp
  from duplicate_guard [where s = store1 and r = "Claim bob E1 30 31 32 ''uuid-2'' T2"
      and rs = "[]" and x = E1 and e = E1 and p = alice and now = 30 and built = 31
      and saved = 32 and uuid = "''uuid-2''" and newId = T2] u o c h e v
  have 1: "one_per_holder (step store1 (Claim bob E1 30 31 32 ''uuid-2'' T2)) \<and>
      claim store1 alice E1 30 31 32 ''uuid-2'' T2 = (Inl AlreadyClaimed, store1)"
    by simp
  from duplicate_guard [where s = store1 and r = "Claim bob E1 30 31 32 ''uuid-2'' T2"
      and rs = "[]" and x = E1 and e = E1 and p = alice and now = 2000 and built = 2001
      and saved = 2002 and uuid = "''uuid-2''" and newId = T2] c h e v
  have 2: "claim store1 alice E1 2000 2001 2002 ''uuid-2'' T2 = (Inl EventPassed, store1)"
    by simp
  from 1 2 show ?thesis by simp
qed

section \<open>Redemption\<close>










section \<open>Organization scope\<close>

text \<open>
  C4. A redemption request names a ticket, by its credential (\<^verbatim>\<open>/api/qr/scan\<close>) or by
  its id (\<^verbatim>\<open>/api/tickets/:id/use\<close>, where the id of the path is read as an ObjectId).
  When the caller's organization is not the one that owns the ticket's event, both handlers
  answer WrongScope and leave the database as it was, whatever the status of the ticket, the
  date of the event and the identifiers are: the comparison comes before the status check
  and before the write.
\<close>

theorem cross_organization_rejected:
  "(resolves s q t ev \<and> user_org p = Some org \<and> org \<noteq> organization ev \<longrightarrow>
      qr_scan s p q now = (Inl WrongScope, s)) \<and>
   (castObjectId x = Some i \<and> findOne (\<lambda>d. oid d = i) s = Some t \<and>
    events s (event t) = Some ev \<and> user_org p = Some org \<and> org \<noteq> organization ev \<longrightarrow>
      tickets_use s p x now = (Inl WrongScope, s))"
  by (auto intro: qr_scan_wrong_scope tickets_use_answers(4))

theorem cross_organization_rejected_witness:
  "qr_scan store1 staff2 alice_qr 20 = (Inl WrongScope, store1) \<and>
   tickets_use store1 staff2 T1 20 = (Inl WrongScope, store1) \<and>
   tickets_use store1 staff2 ''64B0C0FFEE000000000000A1'' 20 = (Inl WrongScope, store1)"
proof -
  have r: "resolves store1 alice_qr alice_ticket ev1" by code_simp
  have c: "castObjectId T1 = Some T1" by code_simp
  have c': "castObjectId ''64B0C0FFEE000000000000A1'' = Some T1" by code_simp
  have f: "findOne (\<lambda>d. oid d = T1) store1 = Some alice_ticket" by code_simp
  have e: "events store1 (event alice_ticket) = Some ev1" by code_simp
  have o: "user_org staff2 = Some ''org2''" by code_simp
  have n: "''org2'' \<noteq> organization ev1" by code_simp
  from cross_organization_rejected [of store1 alice_qr alice_ticket ev1 staff2 "''org2''" 20
      T1 T1] r c f e o n
  have 1: "qr_scan store1 staff2 alice_qr 20 = (Inl WrongScope, store1) \<and>
      tickets_use store1 staff2 T1 20 = (Inl WrongScope, store1)"
    by simp
  from cross_organization_rejected [of store1 alice_qr alice_ticket ev1 staff2 "''org2''" 20
      "''64B0C0FFEE000000000000A1''" T1] c' f e o n
  have 2: "tickets_use store1 staff2 ''64B0C0FFEE000000000000A1'' 20 = (Inl WrongScope, store1)"
    by simp
  from 1 2 show ?thesis by simp
qed

section \<open>Validation\<close>

lemma resolves_unique: "resolves s q t ev \<Longrightarrow> resolves s q t' ev' \<Longrightarrow> t' = t \<and> ev' = ev"
  by (simp add: resolves_def)

lemma qr_validate_errors:
  "fst (qr_validate s p q now) = Inl e \<longleftrightarrow> fst (qr_scan s p q now) = Inl e"
  by (rule qr_paths [where q = q and s = s and p = p and now = now])
     (simp_all add: qr_validate_answers qr_scan_answers)

lemma qr_validate_InrD:
  "fst (qr_validate s p q now) = Inr t \<Longrightarrow>
     \<exists>ev. resolves s q t ev \<and> user_org p = Some (organization ev) \<and> status t = Active \<and>
          now \<le> date ev"
proof (rule qr_paths [where q = q and s = s and p = p and now = now])
  fix t' ev
  assume a: "resolves s q t' ev" "user_org p = Some (organization ev)" "status t' = Active"
    "now \<le> date ev"
  assume "fst (qr_validate s p q now) = Inr t"
  with a have "t = t'" by (simp add: qr_validate_answers)
  with a show ?thesis by blast
qed (simp_all add: qr_validate_answers)

lemma qr_validate_scan:
  "fst (qr_validate s p q now) = Inr t \<Longrightarrow> fst (qr_scan s p q now) = Inr (mark_used p now t)"
  by (rule qr_paths [where q = q and s = s and p = p and now = now])
     (simp_all add: qr_validate_answers qr_scan_answers)


text \<open>
  C9. \<^verbatim>\<open>POST /api/qr/validate\<close> never changes the database. It rejects a credential
  with the answer that a scan of the same credential by the same caller at the same time
  would give, and it reports a ticket as valid exactly when that scan would succeed: the
  credential resolves to the ticket, the caller's organization owns the event, the ticket is
  active and the date of the event has not passed. The rejections are Malformed, NotFound,
  WrongScope, NotActive and EventPassed, in the order of the checks.
\<close>

theorem qr_validate_read_only:
  "snd (qr_validate s p q now) = s \<and>
   (\<forall>e. fst (qr_validate s p q now) = Inl e \<longleftrightarrow> fst (qr_scan s p q now) = Inl e) \<and>
   (\<forall>t. fst (qr_validate s p q now) = Inr t \<longleftrightarrow>
        (\<exists>ev. resolves s q t ev \<and> user_org p = Some (organization ev) \<and> status t = Active \<and>
              now \<le> date ev)) \<and>
   (\<forall>t. fst (qr_validate s p q now) = Inr t \<longrightarrow>
        fst (qr_scan s p q now) = Inr (mark_used p now t)) \<and>
   (JSON_parse q = None \<longrightarrow> fst (qr_validate s p q now) = Inl Malformed) \<and>
   (JSON_parse q \<noteq> None \<and> findOne (\<lambda>d. qrCode d = q) s = None \<longrightarrow>
      fst (qr_validate s p q now) = Inl NotFound) \<and>
   (\<forall>t ev org. resolves s q t ev \<and> user_org p = Some org \<and> org \<noteq> organization ev \<longrightarrow>
      fst (qr_validate s p q now) = Inl WrongScope) \<and>
   (\<forall>t ev. resolves s q t ev \<and> user_org p = Some (organization ev) \<and> status t \<noteq> Active \<longrightarrow>
      fst (qr_validate s p q now) = Inl NotActive) \<and>
   (\<forall>t ev. resolves s q t ev \<and> user_org p = Some (organization ev) \<and> status t = Active \<and>
      date ev < now \<longrightarrow> fst (qr_validate s p q now) = Inl EventPassed)"
proof (intro conjI allI impI)
  show "snd (qr_validate s p q now) = s" by (rule qr_validate_unchanged)
next
  fix e
  show "fst (qr_validate s p q now) = Inl e \<longleftrightarrow> fst (qr_scan s p q now) = Inl e"
    by (rule qr_validate_errors)
next
  fix t
  show "fst (qr_validate s p q now) = Inr t \<longleftrightarrow>
        (\<exists>ev. resolves s q t ev \<and> user_org p = Some (organization ev) \<and> status t = Active \<and>
              now \<le> date ev)"
  proof
    assume "fst (qr_validate s p q now) = Inr t"
    then show "\<exists>ev. resolves s q t ev \<and> user_org p = Some (organization ev) \<and>
        status t = Active \<and> now \<le> date ev"
      by (rule qr_validate_InrD)
  next
    assume "\<exists>ev. resolves s q t ev \<and> user_org p = Some (organization ev) \<and>
        status t = Active \<and> now \<le> date ev"
    then obtain ev where "resolves s q t ev" "user_org p = Some (organization ev)"
      "status t = Active" "now \<le> date ev" by blast
    then show "fst (qr_validate s p q now) = Inr t" by (simp add: qr_validate_answers)
  qed
next
  fix t
  assume "fst (qr_validate s p q now) = Inr t"
  then show "fst (qr_scan s p q now) = Inr (mark_used p now t)" by (rule qr_validate_scan)
next
  assume "JSON_parse q = None"
  then show "fst (qr_validate s p q now) = Inl Malformed" by (simp add: qr_validate_answers)
next
  assume "JSON_parse q \<noteq> None \<and> findOne (\<lambda>d. qrCode d = q) s = None"
  then show "fst (qr_validate s p q now) = Inl NotFound" by (simp add: qr_validate_answers)
next
  fix t ev org
  assume "resolves s q t ev \<and> user_org p = Some org \<and> org \<noteq> organization ev"
  then show "fst (qr_validate s p q now) = Inl WrongScope"
    by (simp add: qr_validate_answers(6) [of s q t ev p org])
next
  fix t ev
  assume "resolves s q t ev \<and> user_org p = Some (organization ev) \<and> status t \<noteq> Active"
  then show "fst (qr_validate s p q now) = Inl NotActive"
    by (simp add: qr_validate_answers(7) [of s q t ev p])
next
  fix t ev
  assume "resolves s q t ev \<and> user_org p = Some (organization ev) \<and> status t = Active \<and>
      date ev < now"
  then show "fst (qr_validate s p q now) = Inl EventPassed"
    by (simp add: qr_validate_answers(8) [of s q t ev p])
qed

theorem qr_validate_read_only_witness:
  "snd (qr_validate store1 staff1 alice_qr 20) = store1 \<and>
   fst (qr_validate store1 staff2 alice_qr 20) = Inl WrongScope \<and>
   fst (qr_scan store1 staff2 alice_qr 20) = Inl WrongScope"
proof -
  have r: "resolves store1 alice_qr alice_ticket ev1" by code_simp
  have o: "user_org staff2 = Some ''org2''" by code_simp
  have n: "''org2'' \<noteq> organization ev1" by code_simp
  note v1 = qr_validate_read_only [of store1 staff1 alice_qr 20]
  note v2 = qr_validate_read_only [of store1 staff2 alice_qr 20]
  from v1 have 1: "snd (qr_validate store1 staff1 alice_qr 20) = store1"
    by (rule conjunct1)
  from v2 have "\<forall>t ev org. resolves store1 alice_qr t ev \<and> user_org staff2 = Some org \<and>
      org \<noteq> organization ev \<longrightarrow> fst (qr_validate store1 staff2 alice_qr 20) = Inl WrongScope"
    by (elim conjE)
  with r o n have 2: "fst (qr_validate store1 staff2 alice_qr 20) = Inl WrongScope"
    by blast
  from v2 have "\<forall>e. fst (qr_validate store1 staff2 alice_qr 20) = Inl e \<longleftrightarrow>
      fst (qr_scan store1 staff2 alice_qr 20) = Inl e"
    by (elim conjE)
  with 2 have 3: "fst (qr_scan store1 staff2 alice_qr 20) = Inl WrongScope" by blast
  from 1 2 3 show ?thesis by (intro conjI)
qed



section \<open>The life of a ticket\<close>

lemma claim_InrD:
  "fst (claim s p x now built saved uuid newId) = Inr t \<Longrightarrow>
     \<exists>e ev. castObjectId x = Some e \<and> claimable s e ev now \<and> \<not> holds_ticket s e (uid p) \<and>
          countDocuments (\<lambda>t. event t = e \<and> status t = Active) s < capacity ev \<and>
          t = new_ticket p x e ev built saved uuid newId \<and> schema_valid t \<and> \<not> duplicate_key t s \<and>
          snd (claim s p x now built saved uuid newId) = s\<lparr>tickets := tickets s @ [t]\<rparr>"
  by (rule claim_paths [where x = x and s = s and p = p and now = now and built = built
        and saved = saved and uuid = uuid and newId = newId])
     (auto simp: claim_answers save_new_Some)

lemma terminal_kept:
  assumes u: "unique_ids s" and d: "d \<in> set (tickets s)" and na: "status d \<noteq> Active"
  shows "d \<in> set (tickets (step s r)) \<or> oid d \<notin> oid ` set (tickets (step s r))"
proof (rule step_tickets [where s = s and r = r])
  assume "tickets (step s r) = tickets s"
  with d show ?thesis by simp
next
  fix t
  assume "tickets (step s r) = tickets s @ [t]"
  with d show ?thesis by simp
next
  fix t p now
  assume t: "t \<in> set (tickets s)" "status t = Active"
    and s': "tickets (step s r) = updateOne (oid t) (mark_used p now) (tickets s)"
  from u t(1) have "set (updateOne (oid t) (mark_used p now) (tickets s))
      = insert (mark_used p now t) (set (tickets s) - {t})"
    unfolding unique_ids_def by (rule updateOne_set)
  moreover from t(2) na have "d \<noteq> t" by auto
  ultimately show ?thesis using d s' by simp
next
  fix P
  assume s': "tickets (step s r) = filter P (tickets s)"
  show ?thesis
  proof (cases "P d")
    case True
    with d s' show ?thesis by simp
  next
    case False
    have "oid d \<notin> oid ` set (filter P (tickets s))"
    proof
      assume "oid d \<in> oid ` set (filter P (tickets s))"
      then obtain d' where d': "d' \<in> set (tickets s)" "P d'" "oid d' = oid d" by auto
      from u have "inj_on oid (set (tickets s))"
        by (simp add: unique_ids_def distinct_map)
      with d d' have "d' = d" by (auto dest: inj_onD)
      with d' False show False by simp
    qed
    with s' show ?thesis by simp
  qed
qed

lemma redeemed_only:
  assumes u: "unique_ids s" and t: "t \<in> set (tickets s)" and a: "status t = Active"
    and d': "d' \<in> set (updateOne (oid t) (mark_used p now) (tickets s))"
    and new: "d' \<notin> set (tickets s)"
  shows "\<exists>d\<in>set (tickets s). oid d = oid d' \<and> status d = Active \<and> status d' = Used"
proof -
  from u t have "set (updateOne (oid t) (mark_used p now) (tickets s))
      = insert (mark_used p now t) (set (tickets s) - {t})"
    unfolding unique_ids_def by (rule updateOne_set)
  with d' new have "d' = mark_used p now t" by auto
  with t a show ?thesis by auto
qed

text \<open>
  C8. A ticket enters the collection with status active: that is the status of the ticket
  which a successful claim request appends. In a database whose documents have different
  ids, a ticket whose status is used, cancelled or expired is, after any request, either
  still there exactly as it was or deleted with its event or holder. A ticket that a
  redemption request (\<^verbatim>\<open>/api/qr/scan\<close> or \<^verbatim>\<open>/api/tickets/:id/use\<close>) has changed
  was active before and is used after.
\<close>

theorem ticket_lifecycle:
  "(fst (claim s p x now built saved uuid newId) = Inr t \<longrightarrow>
      status t = Active \<and> tickets (snd (claim s p x now built saved uuid newId)) = tickets s @ [t]) \<and>
   (unique_ids s \<and> d \<in> set (tickets s) \<and> status d \<noteq> Active \<longrightarrow>
      d \<in> set (tickets (step s r)) \<or> oid d \<notin> oid ` set (tickets (step s r))) \<and>
   (unique_ids s \<and> d' \<in> set (tickets (snd (qr_scan s p q now))) \<and> d' \<notin> set (tickets s) \<longrightarrow>
      (\<exists>d\<in>set (tickets s). oid d = oid d' \<and> status d = Active \<and> status d' = Used)) \<and>
   (unique_ids s \<and> d' \<in> set (tickets (snd (tickets_use s p y now))) \<and> d' \<notin> set (tickets s) \<longrightarrow>
      (\<exists>d\<in>set (tickets s). oid d = oid d' \<and> status d = Active \<and> status d' = Used))"
proof -
  have c1: "fst (claim s p x now built saved uuid newId) = Inr t \<longrightarrow>
      status t = Active \<and> tickets (snd (claim s p x now built saved uuid newId)) = tickets s @ [t]"
  proof
    assume "fst (claim s p x now built saved uuid newId) = Inr t"
    from claim_InrD [OF this]
    show "status t = Active \<and> tickets (snd (claim s p x now built saved uuid newId)) = tickets s @ [t]"
      by auto
  qed
  have c2: "unique_ids s \<and> d \<in> set (tickets s) \<and> status d \<noteq> Active \<longrightarrow>
      d \<in> set (tickets (step s r)) \<or> oid d \<notin> oid ` set (tickets (step s r))"
    by (simp add: terminal_kept)
  have c3: "unique_ids s \<and> d' \<in> set (tickets (snd (qr_scan s p q now))) \<and> d' \<notin> set (tickets s) \<longrightarrow>
      (\<exists>d\<in>set (tickets s). oid d = oid d' \<and> status d = Active \<and> status d' = Used)"
  proof
    assume a: "unique_ids s \<and> d' \<in> set (tickets (snd (qr_scan s p q now))) \<and> d' \<notin> set (tickets s)"
    show "\<exists>d\<in>set (tickets s). oid d = oid d' \<and> status d = Active \<and> status d' = Used"
    proof (rule qr_paths [where q = q and s = s and p = p and now = now])
      fix t ev
      assume ok: "resolves s q t ev" "user_org p = Some (organization ev)" "status t = Active"
        "now \<le> date ev"
      then have "t \<in> set (tickets s)" by (simp add: resolvesD)
      with a ok show ?thesis
        by (intro redeemed_only [where t = t and p = p and now = now])
           (simp_all add: qr_scan_ok)
    qed (use a in \<open>simp_all add: qr_scan_answers\<close>)
  qed
  have c4: "unique_ids s \<and> d' \<in> set (tickets (snd (tickets_use s p y now))) \<and> d' \<notin> set (tickets s) \<longrightarrow>
      (\<exists>d\<in>set (tickets s). oid d = oid d' \<and> status d = Active \<and> status d' = Used)"
  proof
    assume a: "unique_ids s \<and> d' \<in> set (tickets (snd (tickets_use s p y now))) \<and>
        d' \<notin> set (tickets s)"
    show "\<exists>d\<in>set (tickets s). oid d = oid d' \<and> status d = Active \<and> status d' = Used"
    proof (rule tickets_use_paths [where x = y and s = s and p = p])
      fix i t ev
      assume ok: "castObjectId y = Some i" "findOne (\<lambda>d. oid d = i) s = Some t"
        "events s (event t) = Some ev" "user_org p = Some (organization ev)" "status t = Active"
      then have "t \<in> set (tickets s)" by (auto simp: findOne_def dest: find_SomeD)
      with a ok show ?thesis
        by (intro redeemed_only [where t = t and p = p and now = now])
           (simp_all add: tickets_use_answers)
    qed (use a in \<open>simp_all add: tickets_use_answers tickets_use_cast_error\<close>)
  qed
  show ?thesis
    by (rule conjI [OF c1 conjI [OF c2 conjI [OF c3 c4]]])
qed


theorem ticket_lifecycle_witness:
  "status (new_ticket bob E1 E1 ev1 31 32 ''uuid-2'' T2) = Active \<and>
   status (mark_used staff1 20 alice_ticket) = Used \<and>
   mark_used staff1 20 alice_ticket \<in> set (tickets (step store2 (TicketsUse staff1 T1 30)))"
proof -
  let ?b = "new_ticket bob E1 E1 ev1 31 32 ''uuid-2'' T2"
  let ?d = "mark_used staff1 20 alice_ticket"
  let ?r = "TicketsUse staff1 T1 30"
  have ok: "fst (claim store2 bob E1 30 31 32 ''uuid-2'' T2) = Inr ?b"
    by code_simp
  have u: "unique_ids store2" by code_simp
  have d: "?d \<in> set (tickets store2)" by code_simp
  have n: "status ?d \<noteq> Active" by simp
  have k: "oid ?d \<in> oid ` set (tickets (step store2 ?r))" by code_simp
  note l = ticket_lifecycle [of store2 bob E1 30 31 32 "''uuid-2''" T2 ?b ?d ?r]
  from l ok have 1: "status ?b = Active" by blast
  from l u d n k have 2: "?d \<in> set (tickets (step store2 ?r))" by blast
  from 1 2 show ?thesis by simp
qed



section \<open>Claims after a cancelled or expired ticket\<close>

lemma not_holds_terminal:
  "\<forall>t\<in>set (tickets s). event t = e \<and> user t = h \<longrightarrow> status t = Cancelled \<or> status t = Expired
     \<Longrightarrow> \<not> holds_ticket s e h"
  by (auto simp: holds_ticket_def list_ex_iff occupies_def)

lemma active_le_occupied:
  "countDocuments (\<lambda>t. event t = e \<and> status t = Active) s \<le> occupied s e"
proof -
  have "length (filter (\<lambda>t. event t = e \<and> status t = Active) (tickets s))
      = length (filter (\<lambda>t. status t = Active) (filter (\<lambda>t. event t = e \<and> occupies t) (tickets s)))"
    by (auto simp: occupies_def intro!: arg_cong [where f = length] filter_cong)
  also have "\<dots> \<le> length (filter (\<lambda>t. event t = e \<and> occupies t) (tickets s))"
    by (rule length_filter_le)
  finally show ?thesis by (simp add: countDocuments_def occupied_def)
qed

text \<open>
  C10. The request names the event \<open>e\<close>; the holder's tickets for the event, if any, are
  all cancelled or expired; the event is claimable, and the handler's count of the event's
  tickets leaves a slot (which \<open>active_le_occupied\<close> shows to be the case whenever the
  occupied count is below the capacity). Then the duplicate guard does not stop the
  request: the holder counts as having no ticket, and the answer is not AlreadyClaimed.
  With an identifier, an id and a payload that no stored ticket has, the request succeeds:
  it appends one ticket, which is the answer, an active ticket of this holder for this
  event with the new identifier, id and payload, the price of the event and the time of
  the save; after it the holder has a ticket for the event.
\<close>

theorem terminal_tickets_do_not_block:
  assumes "castObjectId x = Some e" and "claimable s e ev now"
    and "\<forall>t\<in>set (tickets s). event t = e \<and> user t = uid p \<longrightarrow>
           status t = Cancelled \<or> status t = Expired"
    and "countDocuments (\<lambda>t. event t = e \<and> status t = Active) s < capacity ev"
  shows "\<not> holds_ticket s e (uid p) \<and>
     fst (claim s p x now built saved uuid newId) \<noteq> Inl AlreadyClaimed \<and>
     (uuid \<noteq> [] \<and>
      (\<forall>d\<in>set (tickets s). oid d \<noteq> newId \<and> ticketId d \<noteq> uuid \<and>
           qrCode d \<noteq> stringify_qr uuid x (uid p) (toISOString built)) \<longrightarrow>
        claim s p x now built saved uuid newId =
          (Inr \<lparr> oid = newId, ticketId = uuid, event = e, user = uid p,
                  qrCode = stringify_qr uuid x (uid p) (toISOString built), status = Active,
                  usedAt = None, usedBy = None,
                  price = (if ticketType ev = Paid then ticketPrice ev else Some 0),
                  createdAt = saved, updatedAt = saved \<rparr>,
           s\<lparr>tickets := tickets s @
               [\<lparr> oid = newId, ticketId = uuid, event = e, user = uid p,
                  qrCode = stringify_qr uuid x (uid p) (toISOString built), status = Active,
                  usedAt = None, usedBy = None,
                  price = (if ticketType ev = Paid then ticketPrice ev else Some 0),
                  createdAt = saved, updatedAt = saved \<rparr>]\<rparr>) \<and>
        holds_ticket (snd (claim s p x now built saved uuid newId)) e (uid p))"
proof -
  let ?t = "new_ticket p x e ev built saved uuid newId"
  from assms(3) have nh: "\<not> holds_ticket s e (uid p)" by (rule not_holds_terminal)
  have c: "claim s p x now built saved uuid newId =
      (case save_new ?t s of None \<Rightarrow> (Inl ServerError, s) | Some s' \<Rightarrow> (Inr ?t, s'))"
    using assms(1,2) nh assms(4) by (rule claim_save)
  then have na: "fst (claim s p x now built saved uuid newId) \<noteq> Inl AlreadyClaimed"
    by (simp split: option.splits)
  have ok: "claim s p x now built saved uuid newId = (Inr ?t, s\<lparr>tickets := tickets s @ [?t]\<rparr>) \<and>
      holds_ticket (snd (claim s p x now built saved uuid newId)) e (uid p)"
    if u: "uuid \<noteq> []"
      and f: "\<forall>d\<in>set (tickets s). oid d \<noteq> newId \<and> ticketId d \<noteq> uuid \<and>
           qrCode d \<noteq> stringify_qr uuid x (uid p) (toISOString built)"
  proof -
    have "qrCode ?t \<noteq> []" by (simp add: stringify_qr_def)
    moreover from f have "\<not> duplicate_key ?t s"
      by (auto simp: duplicate_key_def list_ex_iff)
    ultimately have "save_new ?t s = Some (s\<lparr>tickets := tickets s @ [?t]\<rparr>)"
      using u by (simp add: save_new_def schema_valid_def)
    with c have 1: "claim s p x now built saved uuid newId = (Inr ?t, s\<lparr>tickets := tickets s @ [?t]\<rparr>)"
      by simp
    then have "holds_ticket (snd (claim s p x now built saved uuid newId)) e (uid p)"
      by (simp add: holds_ticket_def occupies_def)
    with 1 show ?thesis by simp
  qed
  from nh na ok show ?thesis by (auto simp: new_ticket_def holds_ticket_def occupies_def)
qed

theorem terminal_tickets_do_not_block_witness:
  "fst (claim store3 alice E1 30 31 32 ''uuid-2'' T2) =
     Inr \<lparr> oid = T2, ticketId = ''uuid-2'', event = E1, user = ''alice'',
            qrCode = stringify_qr ''uuid-2'' E1 ''alice'' ''1970-01-01T00:00:00.031Z'',
            status = Active, usedAt = None, usedBy = None, price = Some 0,
            createdAt = 32, updatedAt = 32 \<rparr> \<and>
   holds_ticket (snd (claim store3 alice E1 30 31 32 ''uuid-2'' T2)) E1 ''alice''"
proof -
  have x: "castObjectId E1 = Some E1" by code_simp
  have c: "claimable store3 E1 ev1 30" by code_simp
  have t: "\<forall>t\<in>set (tickets store3). event t = E1 \<and> user t = uid alice \<longrightarrow>
      status t = Cancelled \<or> status t = Expired"
    by (simp add: store3_def)
  have k: "countDocuments (\<lambda>t. event t = E1 \<and> status t = Active) store3 < capacity ev1"
    by code_simp
  have u: "''uuid-2'' \<noteq> []" by simp
  have d: "list_all (\<lambda>d. oid d \<noteq> T2 \<and> ticketId d \<noteq> ''uuid-2'' \<and>
           qrCode d \<noteq> stringify_qr ''uuid-2'' E1 (uid alice) (toISOString 31)) (tickets store3)"
    by code_simp
  have v: "uid alice = ''alice'' \<and> toISOString 31 = ''1970-01-01T00:00:00.031Z'' \<and>
      ticketType ev1 = Free" by code_simp
  from d have d': "\<forall>d\<in>set (tickets store3). oid d \<noteq> T2 \<and> ticketId d \<noteq> ''uuid-2'' \<and>
           qrCode d \<noteq> stringify_qr ''uuid-2'' E1 (uid alice) (toISOString 31)"
    by (simp only: list_all_iff)
  from terminal_tickets_do_not_block [OF x c t k, where uuid = "''uuid-2''" and newId = T2
      and built = 31 and saved = 32] u d' v
  show ?thesis by (simp add: holds_ticket_def occupies_def)
qed

section \<open>The credential\<close>

lemma qr_object_inject:
  "qr_object a b c d = qr_object a' b' c' d' \<longleftrightarrow> a = a' \<and> b = b' \<and> c = c' \<and> d = d'"
  by (simp add: qr_object_def units_inject)

lemma findOne_qrCode_None:
  "q \<notin> qrCode ` set (tickets s) \<Longrightarrow> findOne (\<lambda>d. qrCode d = q) s = None"
  by (auto simp: findOne_def find_None_iff)

lemma qr_scan_unknown:
  "q \<notin> qrCode ` set (tickets s) \<Longrightarrow>
     qr_scan s p q now = (Inl Malformed, s) \<or> qr_scan s p q now = (Inl NotFound, s)"
  by (cases "JSON_parse q")
     (simp_all add: qr_scan_malformed qr_scan_not_found findOne_qrCode_None)

lemma qr_validate_unknown:
  "q \<notin> qrCode ` set (tickets s) \<Longrightarrow>
     qr_validate s p q now = (Inl Malformed, s) \<or> qr_validate s p q now = (Inl NotFound, s)"
  by (cases "JSON_parse q")
     (simp_all add: qr_validate_answers findOne_qrCode_None)

lemma qr_scan_resolved:
  "fst (qr_scan s p q now) = Inr t' \<Longrightarrow>
     qrCode t' = q \<and> (\<exists>d\<in>set (tickets s). qrCode d = q \<and> oid d = oid t')"
proof -
  assume "fst (qr_scan s p q now) = Inr t'"
  from qr_scan_InrD [OF this] obtain t ev where
    r: "resolves s q t ev" and t': "t' = mark_used p now t" by blast
  from r have "qrCode t = q" "t \<in> set (tickets s)" by (simp_all add: resolvesD)
  with t' show ?thesis by auto
qed

text \<open>
  C5. The claim: decoding the credential of a ticket gives back the ticket's identifier,
  event id, holder id and issuance time, and a text that differs from the stored payloads
  is answered Malformed or NotFound and never resolves to another ticket. The first part
  does not hold of the event id and of the time as it is written. The payload carries the
  event id as the request wrote it, the ticket the ObjectId that it was cast to, and the two
  differ where the request has a digit in upper case. And the payload carries the time at
  which the handler built it, while the ticket gets its time of creation at the save, after
  the image of the payload has been drawn. What holds is this. Parsing the payload that was
  built from four texts gives the object with these four texts under the four keys, and
  that object determines them. For the ticket of a successful claim request, which is then
  in the collection, the four texts are the ticket's own identifier, the event id as the
  request wrote it, which casts to the ticket's event id, the ticket's holder, and the time
  at which the payload was built. The handlers look a credential up by equality with the stored
  payloads: a text that equals no stored payload is answered with Malformed or NotFound by
  the scan and by the validation, and changes nothing; a scan that succeeds answers with a
  ticket whose stored payload is the text presented; and, the documents having different
  ids, a text that differs from the stored payload of a ticket never resolves to that ticket.
\<close>

theorem credential_lookup:
  "JSON_parse (stringify_qr tid eid usr ts) = Some (qr_object tid eid usr ts) \<and>
   (qr_object tid eid usr ts = qr_object tid' eid' usr' ts' \<longleftrightarrow>
      tid = tid' \<and> eid = eid' \<and> usr = usr' \<and> ts = ts') \<and>
   (fst (claim s p x now built saved uuid newId) = Inr t \<longrightarrow>
      t \<in> set (tickets (snd (claim s p x now built saved uuid newId))) \<and>
      JSON_parse (qrCode t) = Some (qr_object (ticketId t) x (user t) (toISOString built)) \<and>
      castObjectId x = Some (event t) \<and> createdAt t = saved) \<and>
   (q \<notin> qrCode ` set (tickets s) \<longrightarrow>
      (qr_scan s p q now = (Inl Malformed, s) \<or> qr_scan s p q now = (Inl NotFound, s)) \<and>
      (qr_validate s p q now = (Inl Malformed, s) \<or> qr_validate s p q now = (Inl NotFound, s))) \<and>
   (fst (qr_scan s p q now) = Inr t' \<longrightarrow>
      qrCode t' = q \<and> (\<exists>d\<in>set (tickets s). qrCode d = q \<and> oid d = oid t')) \<and>
   (unique_ids s \<and> d \<in> set (tickets s) \<and> qrCode d \<noteq> q \<and> fst (qr_scan s p q now) = Inr t' \<longrightarrow>
      oid t' \<noteq> oid d)"
proof -
  have c1: "JSON_parse (stringify_qr tid eid usr ts) = Some (qr_object tid eid usr ts)"
    by (rule JSON_parse_stringify_qr)
  have c2: "qr_object tid eid usr ts = qr_object tid' eid' usr' ts' \<longleftrightarrow>
      tid = tid' \<and> eid = eid' \<and> usr = usr' \<and> ts = ts'"
    by (rule qr_object_inject)
  have c3: "fst (claim s p x now built saved uuid newId) = Inr t \<longrightarrow>
      t \<in> set (tickets (snd (claim s p x now built saved uuid newId))) \<and>
      JSON_parse (qrCode t) = Some (qr_object (ticketId t) x (user t) (toISOString built)) \<and>
      castObjectId x = Some (event t) \<and> createdAt t = saved"
  proof
    assume "fst (claim s p x now built saved uuid newId) = Inr t"
    from claim_InrD [OF this]
    show "t \<in> set (tickets (snd (claim s p x now built saved uuid newId))) \<and>
      JSON_parse (qrCode t) = Some (qr_object (ticketId t) x (user t) (toISOString built)) \<and>
      castObjectId x = Some (event t) \<and> createdAt t = saved"
      by (auto simp: JSON_parse_stringify_qr)
  qed
  have c4: "q \<notin> qrCode ` set (tickets s) \<longrightarrow>
      (qr_scan s p q now = (Inl Malformed, s) \<or> qr_scan s p q now = (Inl NotFound, s)) \<and>
      (qr_validate s p q now = (Inl Malformed, s) \<or> qr_validate s p q now = (Inl NotFound, s))"
    using qr_scan_unknown [of q s p now] qr_validate_unknown [of q s p now] by blast
  have c5: "fst (qr_scan s p q now) = Inr t' \<longrightarrow>
      qrCode t' = q \<and> (\<exists>d\<in>set (tickets s). qrCode d = q \<and> oid d = oid t')"
    using qr_scan_resolved [of s p q now t'] by blast
  have c6: "unique_ids s \<and> d \<in> set (tickets s) \<and> qrCode d \<noteq> q \<and>
      fst (qr_scan s p q now) = Inr t' \<longrightarrow> oid t' \<noteq> oid d"
  proof
    assume a: "unique_ids s \<and> d \<in> set (tickets s) \<and> qrCode d \<noteq> q \<and>
      fst (qr_scan s p q now) = Inr t'"
    then obtain d' where d': "d' \<in> set (tickets s)" "qrCode d' = q" "oid d' = oid t'"
      using qr_scan_resolved [of s p q now t'] by blast
    from a have "inj_on oid (set (tickets s))" by (simp add: unique_ids_def distinct_map)
    with a d' show "oid t' \<noteq> oid d" by (auto dest: inj_onD)
  qed
  show ?thesis
    by (rule conjI [OF c1 conjI [OF c2 conjI [OF c3 conjI [OF c4 conjI [OF c5 c6]]]]])
qed

text \<open>
  Alice's request writes the id of the event in upper case; its payload is built at time 11
  and its ticket saved at time 12. It succeeds; the ticket has the id of the event in lower
  case and the time 12, and its payload parses to the id in upper case and the time 11,
  which is not the object of the ticket's own four fields.
\<close>

theorem credential_lookup_counterexample:
  "fst (claim store0 alice E1_upper 10 11 12 ''uuid-1'' T1) = Inr alice_ticket_upper \<and>
   JSON_parse (qrCode alice_ticket_upper) =
     Some (qr_object ''uuid-1'' E1_upper ''alice'' ''1970-01-01T00:00:00.011Z'') \<and>
   event alice_ticket_upper = E1 \<and> E1_upper \<noteq> E1 \<and>
   toISOString (createdAt alice_ticket_upper) = ''1970-01-01T00:00:00.012Z'' \<and>
   JSON_parse (qrCode alice_ticket_upper) \<noteq>
     Some (qr_object (ticketId alice_ticket_upper) (event alice_ticket_upper)
             (user alice_ticket_upper) (toISOString (createdAt alice_ticket_upper)))"
  by code_simp

theorem credential_lookup_witness:
  "JSON_parse alice_qr = Some (qr_object ''uuid-1'' E1 ''alice'' ''1970-01-01T00:00:00.011Z'') \<and>
   JSON_parse (qrCode alice_ticket_upper) =
     Some (qr_object ''uuid-1'' E1_upper ''alice'' ''1970-01-01T00:00:00.011Z'') \<and>
   castObjectId E1_upper = Some (event alice_ticket_upper) \<and>
   qr_scan store1 staff1 (alice_qr @ '' '') 20 = (Inl NotFound, store1) \<and>
   qr_scan store1 staff1 (tl alice_qr) 20 = (Inl Malformed, store1)"
proof -
  have a: "alice_qr @ '' '' \<notin> qrCode ` set (tickets store1)" by code_simp
  have b: "tl alice_qr \<notin> qrCode ` set (tickets store1)" by code_simp
  have "fst (qr_scan store1 staff1 (alice_qr @ '' '') 20) \<noteq> Inl Malformed" by code_simp
  then have na: "qr_scan store1 staff1 (alice_qr @ '' '') 20 \<noteq> (Inl Malformed, store1)" by auto
  have "fst (qr_scan store1 staff1 (tl alice_qr) 20) \<noteq> Inl NotFound" by code_simp
  then have nb: "qr_scan store1 staff1 (tl alice_qr) 20 \<noteq> (Inl NotFound, store1)" by auto
  have ok: "fst (claim store0 alice E1_upper 10 11 12 ''uuid-1'' T1) = Inr alice_ticket_upper"
    by code_simp
  have v: "ticketId alice_ticket_upper = ''uuid-1'' \<and> user alice_ticket_upper = ''alice'' \<and>
      toISOString 11 = ''1970-01-01T00:00:00.011Z''"
    by code_simp
  note l1 = credential_lookup [where tid = "''uuid-1''" and eid = E1 and usr = "''alice''"
      and ts = "''1970-01-01T00:00:00.011Z''" and q = "alice_qr @ '' ''" and s = store1
      and p = staff1 and now = 20]
  note l2 = credential_lookup [where q = "tl alice_qr" and s = store1 and p = staff1
      and now = 20]
  note l3 = credential_lookup [where s = store0 and p = alice and x = E1_upper and now = 10
      and built = 11 and saved = 12 and uuid = "''uuid-1''" and newId = T1
      and t = alice_ticket_upper]
  from l1 have 1: "JSON_parse alice_qr =
      Some (qr_object ''uuid-1'' E1 ''alice'' ''1970-01-01T00:00:00.011Z'')"
    by (simp add: alice_qr_def)
  from l1 a na have 2: "qr_scan store1 staff1 (alice_qr @ '' '') 20 = (Inl NotFound, store1)"
    by blast
  from l2 b nb have 3: "qr_scan store1 staff1 (tl alice_qr) 20 = (Inl Malformed, store1)"
    by blast
  from l3 ok v have 4: "JSON_parse (qrCode alice_ticket_upper) =
      Some (qr_object ''uuid-1'' E1_upper ''alice'' ''1970-01-01T00:00:00.011Z'') \<and>
      castObjectId E1_upper = Some (event alice_ticket_upper)"
    by simp
  from 1 2 3 4 show ?thesis by simp
qed

section \<open>The payload\<close>

lemma qr_scan_payloads: "map qrCode (tickets (snd (qr_scan s p q now))) = map qrCode (tickets s)"
  by (rule qr_paths [where q = q and s = s and p = p and now = now])
     (simp_all add: qr_scan_answers updateOne_map)

lemma tickets_use_payloads:
  "map qrCode (tickets (snd (tickets_use s p x now))) = map qrCode (tickets s)"
  by (rule tickets_use_paths [where x = x and s = s and p = p])
     (simp_all add: tickets_use_answers tickets_use_cast_error updateOne_map)

text \<open>
  C6. The claim: the payload generated at claim time is a deterministic serialization of
  exactly four fields, the ticket's identifier, event id, holder id and issuance time, and
  never of the status. It does not hold of the event id as it is written: the payload takes
  the event id as the request wrote it, the ticket the ObjectId that it was cast to, so that
  two requests that write one event id in different cases give tickets with the same four
  fields and different payloads. What holds is this. The payload that a successful claim
  request stores with its ticket is the serialization of the ticket's identifier, the event
  id as the request wrote it, which casts to the ticket's event id, the id of the holder and
  the time at which the handler built the payload, as an ISO text, and of nothing else (the
  ticket's time of creation is the later time of the save): it parses to the object with
  exactly these four keys, and two requests that agree on the four values store the same
  payload whatever the databases, the other times and the ids of the documents are. The status is not part of it: the redemption handlers change the status of
  a ticket and leave every stored payload as it is.
\<close>

theorem payload_fields:
  "(fst (claim s p x now built saved uuid newId) = Inr t \<longrightarrow>
      qrCode t = stringify_qr uuid x (uid p) (toISOString built) \<and>
      ticketId t = uuid \<and> castObjectId x = Some (event t) \<and> user t = uid p \<and>
      createdAt t = saved \<and>
      JSON_parse (qrCode t) =
        Some (JObject [(units ''ticketId'', JString (units uuid)),
                       (units ''eventId'', JString (units x)),
                       (units ''userId'', JString (units (uid p))),
                       (units ''timestamp'', JString (units (toISOString built)))])) \<and>
   (fst (claim s p x now built saved uuid newId) = Inr t \<and>
    fst (claim s2 p2 x now2 built saved2 uuid newId2) = Inr t2 \<and> uid p2 = uid p \<longrightarrow>
      qrCode t2 = qrCode t) \<and>
   map qrCode (tickets (snd (qr_scan s p' q now'))) = map qrCode (tickets s) \<and>
   map qrCode (tickets (snd (tickets_use s p' y now'))) = map qrCode (tickets s)"
proof -
  have c1: "fst (claim s p x now built saved uuid newId) = Inr t \<longrightarrow>
      qrCode t = stringify_qr uuid x (uid p) (toISOString built) \<and>
      ticketId t = uuid \<and> castObjectId x = Some (event t) \<and> user t = uid p \<and>
      createdAt t = saved \<and>
      JSON_parse (qrCode t) =
        Some (JObject [(units ''ticketId'', JString (units uuid)),
                       (units ''eventId'', JString (units x)),
                       (units ''userId'', JString (units (uid p))),
                       (units ''timestamp'', JString (units (toISOString built)))])"
  proof
    assume "fst (claim s p x now built saved uuid newId) = Inr t"
    from claim_InrD [OF this] obtain e ev where "castObjectId x = Some e"
      "t = new_ticket p x e ev built saved uuid newId"
      by blast
    then show "qrCode t = stringify_qr uuid x (uid p) (toISOString built) \<and>
      ticketId t = uuid \<and> castObjectId x = Some (event t) \<and> user t = uid p \<and>
      createdAt t = saved \<and>
      JSON_parse (qrCode t) =
        Some (JObject [(units ''ticketId'', JString (units uuid)),
                       (units ''eventId'', JString (units x)),
                       (units ''userId'', JString (units (uid p))),
                       (units ''timestamp'', JString (units (toISOString built)))])"
      by (simp add: JSON_parse_stringify_qr qr_object_def)
  qed
  have c2: "fst (claim s p x now built saved uuid newId) = Inr t \<and>
    fst (claim s2 p2 x now2 built saved2 uuid newId2) = Inr t2 \<and> uid p2 = uid p \<longrightarrow>
      qrCode t2 = qrCode t"
  proof
    assume a: "fst (claim s p x now built saved uuid newId) = Inr t \<and>
      fst (claim s2 p2 x now2 built saved2 uuid newId2) = Inr t2 \<and> uid p2 = uid p"
    then obtain e ev where 1: "t = new_ticket p x e ev built saved uuid newId"
      using claim_InrD [of s p x now built saved uuid newId t] by blast
    from a obtain e2 ev2 where 2: "t2 = new_ticket p2 x e2 ev2 built saved2 uuid newId2"
      using claim_InrD [of s2 p2 x now2 built saved2 uuid newId2 t2] by blast
    from a 1 2 show "qrCode t2 = qrCode t" by simp
  qed
  show ?thesis
    by (rule conjI [OF c1 conjI [OF c2 conjI [OF qr_scan_payloads tickets_use_payloads]]])
qed

text \<open>
  Alice's request for the event, with the id written in lower case and in upper case: the
  two tickets have the same identifier, event, holder and time of creation, and different
  payloads.
\<close>

theorem payload_fields_counterexample:
  "fst (claim store0 alice E1 10 11 12 ''uuid-1'' T1) = Inr alice_ticket \<and>
   fst (claim store0 alice E1_upper 10 11 12 ''uuid-1'' T1) = Inr alice_ticket_upper \<and>
   ticketId alice_ticket_upper = ticketId alice_ticket \<and>
   event alice_ticket_upper = event alice_ticket \<and>
   user alice_ticket_upper = user alice_ticket \<and>
   createdAt alice_ticket_upper = createdAt alice_ticket \<and>
   qrCode alice_ticket_upper \<noteq> qrCode alice_ticket"
  by code_simp

theorem payload_fields_witness:
  "qrCode alice_ticket = alice_qr \<and>
   qrCode alice_ticket_upper =
     stringify_qr ''uuid-1'' E1_upper ''alice'' ''1970-01-01T00:00:00.011Z'' \<and>
   map qrCode (tickets (snd (qr_scan store1 staff1 alice_qr 20))) = [alice_qr]"
proof -
  have ok: "fst (claim store0 alice E1 10 11 12 ''uuid-1'' T1) = Inr alice_ticket"
    by code_simp
  have ok': "fst (claim store0 alice E1_upper 10 11 12 ''uuid-1'' T1) = Inr alice_ticket_upper"
    by code_simp
  have ts: "map qrCode (tickets store1) = [alice_qr]" by code_simp
  have v: "uid alice = ''alice'' \<and> toISOString 11 = ''1970-01-01T00:00:00.011Z''"
    by code_simp
  note l = payload_fields [where s = store0 and p = alice and x = E1 and now = 10
      and built = 11 and saved = 12 and uuid = "''uuid-1''" and newId = "T1"
      and t = alice_ticket]
  note l' = payload_fields [where s = store1 and p' = staff1 and q = alice_qr and now' = 20]
  note l'' = payload_fields [where s = store0 and p = alice and x = E1_upper and now = 10
      and built = 11 and saved = 12 and uuid = "''uuid-1''" and newId = "T1"
      and t = alice_ticket_upper]
  from l ok v have 1: "qrCode alice_ticket = alice_qr" by (simp add: alice_qr_def)
  from l' ts have 2: "map qrCode (tickets (snd (qr_scan store1 staff1 alice_qr 20))) = [alice_qr]"
    by simp
  from l'' ok' v have 3: "qrCode alice_ticket_upper =
     stringify_qr ''uuid-1'' E1_upper ''alice'' ''1970-01-01T00:00:00.011Z''"
    by simp
  from 1 2 3 show ?thesis by simp
qed

section \<open>The reported capacity\<close>

text \<open>
  C7. The claim: the read accessor reports the capacity minus the number of tickets in
  status active or used as remaining. \<^verbatim>\<open>GET /api/events/:id\<close> and
  \<^verbatim>\<open>GET /api/users/organizer/events\<close> subtract the number of active tickets only
  (\<open>get_event_remaining\<close>). In the small database the event has capacity one and its
  one ticket is used: both handlers report one remaining slot and the first reports no
  ticket issued, where the claim gives zero remaining.
\<close>

theorem remaining_capacity_ignores_used:
  "events store2 E1 = Some ev1 \<and> capacity ev1 = 1 \<and> occupied store2 E1 = 1 \<and>
   map_sum id remainingCapacity (get_event store2 E1) = Inr 1 \<and>
   map_sum id ticketsIssued (get_event store2 E1) = Inr 0 \<and>
   org_remainingCapacity (organizer_event store2 E1 ev1) = 1 \<and>
   org_ticketsUsed (organizer_event store2 E1 ev1) = 1"
  by code_simp

theorem remaining_capacity_ignores_used_witness:
  "map_sum id remainingCapacity (get_event store2 E1) \<noteq> Inr (capacity ev1 - occupied store2 E1)"
  using remaining_capacity_ignores_used by simp


end
